theory Spec2Isabelle
  imports Main "HOL-Library.Sublist"
begin

section \<open>The remote provider\<close>

text \<open>
  A Go \<open>error\<close> is modelled by its \<open>Error()\<close> text, the only thing the program reads
  from it. \<open>fmt.Errorf("...: %w", err)\<close> yields an error whose text is the formatted
  string with the text of \<open>err\<close> in place of \<open>%w\<close>.
\<close>

datatype error = Error (error_text: string)

text \<open>Of a \<open>gmail.Thread\<close> the program reads the field \<open>Id\<close> only.\<close>

datatype thread = Thread (Thread_Id: string)

text \<open>The fields of \<open>gmail.ListThreadsResponse\<close> that the program reads.\<close>

record list_response =
  Threads :: "thread list"
  NextPageToken :: string
  ResultSizeEstimate :: int

text \<open>
  The three remote calls of the program, with the arguments it sends:
  \<open>Users.Threads.List(userID).LabelIds(label).MaxResults(n)\<close> with an optional
  \<open>PageToken\<close> (the empty string stands for "not set", as in the source),
  \<open>Users.Threads.Modify(userID, tid, {AddLabelIds, RemoveLabelIds})\<close> and
  \<open>Users.Threads.Delete(userID, tid)\<close>.
\<close>

datatype call =
    ThreadsList string string int string
  | ThreadsModify string string "string list" "string list"
  | ThreadsDelete string string

type_synonym history = "call list"

text \<open>
  The provider is outside the program. Its answer to a call may depend on everything
  that was sent before, so it is a function of the history of calls; the program threads
  the history through and appends every call it makes. Logging and the fixed
  \<open>time.Sleep\<close> pauses change neither a returned value nor a remote call and are left out.
\<close>

record provider =
  list_do :: "history \<Rightarrow> string \<Rightarrow> string \<Rightarrow> int \<Rightarrow> string \<Rightarrow> error + list_response"
  modify_do :: "history \<Rightarrow> string \<Rightarrow> string \<Rightarrow> string list \<Rightarrow> string list \<Rightarrow> error + thread"
  delete_do :: "history \<Rightarrow> string \<Rightarrow> string \<Rightarrow> error option"

section \<open>Package gmail: listing, estimating, trashing, deleting\<close>

text \<open>\<open>%d\<close> of a non-negative \<open>int\<close>.\<close>

fun itoa :: "nat \<Rightarrow> string" where
  "itoa n = (if n < 10 then [''0123456789'' ! n]
             else itoa (n div 10) @ [''0123456789'' ! (n mod 10)])"

declare itoa.simps [simp del]

definition category_page_error :: "string \<Rightarrow> nat \<Rightarrow> error \<Rightarrow> error" where
  "category_page_error categoryLabel pageCount err =
     Error (''failed to list category threads for '' @ categoryLabel @ '' (page ''
            @ itoa pageCount @ ''): '' @ error_text err)"

definition trash_page_error :: "nat \<Rightarrow> error \<Rightarrow> error" where
  "trash_page_error pageCount err =
     Error (''failed to list trash threads (page '' @ itoa pageCount @ ''): '' @ error_text err)"

text \<open>The page size of one iteration: \<open>maxPerPage = 500\<close>, or what is still needed when less.\<close>

definition maxPerPage :: int where
  "maxPerPage = 500"

definition pageSize :: "int \<Rightarrow> int \<Rightarrow> int" where
  "pageSize max_results totalFetched =
     (let remainingNeeded = max_results - totalFetched
      in if remainingNeeded < maxPerPage then remainingNeeded else maxPerPage)"

text \<open>
  The \<open>for\<close> loop that \<open>ListCategoryThreads\<close> and \<open>ListTrashThreads\<close> share word for word,
  apart from the label they query and the text of the error. The arguments after
  \<open>max_results\<close> are the loop variables \<open>allThreads\<close>, \<open>pageToken\<close>, \<open>pageCount\<close> and
  \<open>totalFetched\<close>. The \<open>int64\<close> counters are integers here: \<open>totalFetched\<close> is a sum of
  lengths of slices held in memory, and \<open>max - totalFetched\<close> is only computed with
  \<open>totalFetched = 0\<close> or \<open>0 \<le> totalFetched < max\<close>, so nothing wraps.
\<close>

function list_pages ::
  "provider \<Rightarrow> string \<Rightarrow> string \<Rightarrow> (nat \<Rightarrow> error \<Rightarrow> error) \<Rightarrow> int \<Rightarrow>
   thread list \<Rightarrow> string \<Rightarrow> nat \<Rightarrow> int \<Rightarrow> history \<Rightarrow> (error + thread list) \<times> history" where
  "list_pages p userID label wrap max_results allThreads pageToken pageCount totalFetched h =
     (case list_do p h userID label (pageSize max_results totalFetched) pageToken of
        Inl err \<Rightarrow>
          (Inl (wrap (pageCount + 1) err),
           h @ [ThreadsList userID label (pageSize max_results totalFetched) pageToken])
      | Inr res \<Rightarrow>
          if NextPageToken res = [] 
             \<or> totalFetched + int (length (Threads res)) \<ge> max_results
             \<or> length (Threads res) = 0
          then (Inr (allThreads @ Threads res),
                h @ [ThreadsList userID label (pageSize max_results totalFetched) pageToken])
          else list_pages p userID label wrap max_results
                 (allThreads @ Threads res) (NextPageToken res) (pageCount + 1)
                 (totalFetched + int (length (Threads res)))
                 (h @ [ThreadsList userID label (pageSize max_results totalFetched) pageToken]))"
  by pat_completeness auto
termination
  by (relation "measure (\<lambda>(p, userID, label, wrap, max_results, allThreads, pageToken,
                           pageCount, totalFetched, h). nat (max_results - totalFetched))")
     auto

declare list_pages.simps [simp del]

definition ListCategoryThreads ::
  "provider \<Rightarrow> string \<Rightarrow> string \<Rightarrow> int \<Rightarrow> history \<Rightarrow> (error + thread list) \<times> history" where
  "ListCategoryThreads p userID categoryLabel max_results h =
     list_pages p userID categoryLabel (category_page_error categoryLabel) max_results
       [] [] 0 0 h"

definition ListTrashThreads ::
  "provider \<Rightarrow> string \<Rightarrow> int \<Rightarrow> history \<Rightarrow> (error + thread list) \<times> history" where
  "ListTrashThreads p userID max_results h =
     list_pages p userID ''TRASH'' trash_page_error max_results [] [] 0 0 h"

text \<open>
  The two estimate operations return the Go pair \<open>(int64, error)\<close>: \<open>(0, err)\<close> when the
  call fails, the provider's \<open>ResultSizeEstimate\<close> and \<open>nil\<close> otherwise.
\<close>

definition EstimateCategoryThreads ::
  "provider \<Rightarrow> string \<Rightarrow> string \<Rightarrow> history \<Rightarrow> (int \<times> error option) \<times> history" where
  "EstimateCategoryThreads p userID categoryLabel h =
     (case list_do p h userID categoryLabel 1 [] of
        Inl err \<Rightarrow> ((0, Some err), h @ [ThreadsList userID categoryLabel 1 []])
      | Inr res \<Rightarrow> ((ResultSizeEstimate res, None), h @ [ThreadsList userID categoryLabel 1 []]))"

definition EstimateTrashThreads ::
  "provider \<Rightarrow> string \<Rightarrow> history \<Rightarrow> (int \<times> error option) \<times> history" where
  "EstimateTrashThreads p userID h =
     (case list_do p h userID ''TRASH'' 1 [] of
        Inl err \<Rightarrow> ((0, Some err), h @ [ThreadsList userID ''TRASH'' 1 []])
      | Inr res \<Rightarrow> ((ResultSizeEstimate res, None), h @ [ThreadsList userID ''TRASH'' 1 []]))"

text \<open>The \<open>for i, tid := range threadIDs\<close> loop of \<open>BatchTrashThreads\<close>.\<close>

fun trash_each :: "provider \<Rightarrow> string \<Rightarrow> string list \<Rightarrow> history \<Rightarrow> error option \<times> history" where
  "trash_each p userID [] h = (None, h)"
| "trash_each p userID (tid # tids) h =
     (case modify_do p h userID tid [''TRASH''] [''INBOX''] of
        Inl err \<Rightarrow>
          (Some (Error (''failed to trash thread '' @ tid @ '': '' @ error_text err)),
           h @ [ThreadsModify userID tid [''TRASH''] [''INBOX'']])
      | Inr response \<Rightarrow>
          trash_each p userID tids (h @ [ThreadsModify userID tid [''TRASH''] [''INBOX'']]))"

definition BatchTrashThreads ::
  "provider \<Rightarrow> string \<Rightarrow> string list \<Rightarrow> history \<Rightarrow> error option \<times> history" where
  "BatchTrashThreads p userID threadIDs h =
     (if length threadIDs = 0 then (None, h) else trash_each p userID threadIDs h)"

text \<open>The \<open>for i, tid := range threadIDs\<close> loop of \<open>BatchDeleteThreadsPermanently\<close>.\<close>

fun delete_each :: "provider \<Rightarrow> string \<Rightarrow> string list \<Rightarrow> history \<Rightarrow> error option \<times> history" where
  "delete_each p userID [] h = (None, h)"
| "delete_each p userID (tid # tids) h =
     (case delete_do p h userID tid of
        Some err \<Rightarrow>
          (Some (Error (''failed to permanently delete thread '' @ tid @ '': ''
                        @ error_text err)),
           h @ [ThreadsDelete userID tid])
      | None \<Rightarrow> delete_each p userID tids (h @ [ThreadsDelete userID tid]))"

definition BatchDeleteThreadsPermanently ::
  "provider \<Rightarrow> string \<Rightarrow> string list \<Rightarrow> history \<Rightarrow> error option \<times> history" where
  "BatchDeleteThreadsPermanently p userID threadIDs h =
     (if length threadIDs = 0 then (None, h) else delete_each p userID threadIDs h)"

section \<open>Package service: the cleaner\<close>

text \<open>\<open>strings.Contains s substr\<close>: \<open>substr\<close> occurs in \<open>s\<close> as a contiguous block.\<close>

definition strings_Contains :: "string \<Rightarrow> string \<Rightarrow> bool" where
  "strings_Contains s substr = sublist substr s"

text \<open>\<open>IsAuthError\<close>; \<open>None\<close> is the \<open>nil\<close> error.\<close>

definition IsAuthError :: "error option \<Rightarrow> bool" where
  "IsAuthError err =
     (case err of
        None \<Rightarrow> False
      | Some e \<Rightarrow>
          strings_Contains (error_text e) ''ACCESS_TOKEN_SCOPE_INSUFFICIENT''
          \<or> strings_Contains (error_text e) ''insufficientPermissions''
          \<or> strings_Contains (error_text e) ''Error 401''
          \<or> strings_Contains (error_text e) ''Error 403'')"

record CleanSummary =
  PerCategoryDeleted :: "string \<rightharpoonup> int"
  TotalDeleted :: int
  Completed :: bool
  Reason :: string

text \<open>
  What the completion check of one category saw: the cap was reached (then no estimate
  is asked for), or the pair that the estimate operation returned.
\<close>

datatype check = CapReached | Estimated int "error option"

datatype report = Report (category: string) (deleted: int) (checked: check)

text \<open>
  The variables of \<open>CleanCategories\<close> that live across the iterations of its loop:
  \<open>result\<close>, \<open>total\<close>, \<open>completed\<close> and \<open>reason\<close>. The field \<open>reports\<close> is not a variable
  of the source: it is a ghost log with one entry per processed category, in processing
  order, that records the category's \<open>deleted\<close> count and what its completion check saw.
  Nothing in the model reads it; the properties of "every category" are stated over it.
  The counts are lengths of slices held in memory, so the Go \<open>int\<close> values do not wrap
  and are integers here.
\<close>

record clean_state =
  result :: "string \<rightharpoonup> int"
  total :: int
  completed :: bool
  reason :: string
  reports :: "report list"

definition initial_state :: clean_state where
  "initial_state =
     \<lparr>result = Map.empty, total = 0, completed = True,
      reason = ''all categories processed'', reports = []\<rparr>"

text \<open>The listing, the removal and the estimate of one category, each branching on the label.\<close>

definition list_threads ::
  "provider \<Rightarrow> string \<Rightarrow> string \<Rightarrow> int \<Rightarrow> history \<Rightarrow> (error + thread list) \<times> history" where
  "list_threads p userID label maxPerCat h =
     (if label = ''TRASH'' then ListTrashThreads p userID maxPerCat h
      else ListCategoryThreads p userID label maxPerCat h)"

definition remove_threads ::
  "provider \<Rightarrow> string \<Rightarrow> string \<Rightarrow> string list \<Rightarrow> history \<Rightarrow> error option \<times> history" where
  "remove_threads p userID label ids h =
     (if label = ''TRASH'' then BatchDeleteThreadsPermanently p userID ids h
      else BatchTrashThreads p userID ids h)"

definition estimate_threads ::
  "provider \<Rightarrow> string \<Rightarrow> string \<Rightarrow> history \<Rightarrow> (int \<times> error option) \<times> history" where
  "estimate_threads p userID label h =
     (if label = ''TRASH'' then EstimateTrashThreads p userID h
      else EstimateCategoryThreads p userID label h)"

text \<open>The body of the loop \<open>for _, label := range categories\<close>.\<close>

definition clean_category ::
  "provider \<Rightarrow> string \<Rightarrow> int \<Rightarrow> string \<Rightarrow> clean_state \<Rightarrow> history \<Rightarrow>
   (error + clean_state) \<times> history" where
  "clean_category p userID maxPerCat label st h =
     (case list_threads p userID label maxPerCat h of
        (Inl err, h1) \<Rightarrow> (Inl err, h1)
      | (Inr threads, h1) \<Rightarrow>
          (case remove_threads p userID label (map Thread_Id threads) h1 of
             (Some err, h2) \<Rightarrow> (Inl err, h2)
           | (None, h2) \<Rightarrow>
               (let deleted = int (length (map Thread_Id threads));
                    st1 = st\<lparr>result := (result st)(label \<mapsto> deleted),
                             total := total st + deleted\<rparr>
                in if deleted \<ge> maxPerCat
                   then (Inr (st1\<lparr>completed := False,
                                  reason := ''max per category reached; more emails may remain'',
                                  reports := reports st @ [Report label deleted CapReached]\<rparr>),
                         h2)
                   else
                     (case estimate_threads p userID label h2 of
                        ((estimate, err), h3) \<Rightarrow>
                          if err = None \<and> estimate > 0
                          then (Inr (st1\<lparr>completed := False,
                                 reason := ''remaining emails detected in one or more categories'',
                                 reports := reports st
                                            @ [Report label deleted (Estimated estimate err)]\<rparr>),
                                h3)
                          else (Inr (st1\<lparr>reports := reports st
                                         @ [Report label deleted (Estimated estimate err)]\<rparr>),
                                h3)))))"

fun clean_loop ::
  "provider \<Rightarrow> string \<Rightarrow> int \<Rightarrow> string list \<Rightarrow> clean_state \<Rightarrow> history \<Rightarrow>
   (error + clean_state) \<times> history" where
  "clean_loop p userID maxPerCat [] st h = (Inr st, h)"
| "clean_loop p userID maxPerCat (label # categories) st h =
     (case clean_category p userID maxPerCat label st h of
        (Inl err, h') \<Rightarrow> (Inl err, h')
      | (Inr st', h') \<Rightarrow> clean_loop p userID maxPerCat categories st' h')"

definition summary :: "clean_state \<Rightarrow> CleanSummary" where
  "summary st =
     \<lparr>PerCategoryDeleted = result st, TotalDeleted = total st,
      Completed = completed st, Reason = reason st\<rparr>"

definition CleanCategories ::
  "provider \<Rightarrow> string \<Rightarrow> string list \<Rightarrow> int \<Rightarrow> history \<Rightarrow> (error + CleanSummary) \<times> history" where
  "CleanCategories p userID categories maxPerCat h =
     (case clean_loop p userID maxPerCat categories initial_state h of
        (Inl err, h') \<Rightarrow> (Inl err, h')
      | (Inr st, h') \<Rightarrow> (Inr (summary st), h'))"

section \<open>Package handler: the clean endpoint\<close>

record CleanRequest =
  MaxPerCategory :: int
  Categories :: "string list"

text \<open>\<open>CleanResponse\<close>, its fields under the names of their JSON tags.\<close>

record CleanResponse =
  json_deleted :: "string \<rightharpoonup> int"
  json_total_deleted :: int
  json_completed :: bool
  json_completion_reason :: string

text \<open>A response body is a \<open>gin.H\<close> of string values or a \<open>CleanResponse\<close>.\<close>

datatype body = H "(string \<times> string) list" | Cleaned CleanResponse

record response =
  status :: nat
  payload :: body

text \<open>
  The constraints of the \<open>binding\<close> tags of \<open>CleanRequest\<close>:
  \<open>gte=0,lte=1000000\<close> on \<open>MaxPerCategory\<close>, and
  \<open>required,min=1,dive,oneof=...\<close> on \<open>Categories\<close>.
\<close>

definition binding_ok :: "CleanRequest \<Rightarrow> bool" where
  "binding_ok req =
     (0 \<le> MaxPerCategory req \<and> MaxPerCategory req \<le> 1000000
      \<and> 1 \<le> length (Categories req)
      \<and> list_all (\<lambda>c. c \<in> set [''CATEGORY_SOCIAL'', ''CATEGORY_FORUMS'',
                                    ''CATEGORY_PROMOTIONS'', ''CATEGORY_UPDATES'', ''TRASH''])
           (Categories req))"

text \<open>The end of \<open>CleanHandler.Clean\<close>: the response to what \<open>CleanCategories\<close> returned.\<close>

definition respond :: "(error + CleanSummary) \<times> history \<Rightarrow> response \<times> history" where
  "respond r =
     (case r of
        (Inl err, h') \<Rightarrow>
          if IsAuthError (Some err)
          then (\<lparr>status = 401,
                 payload = H [(''error'', ''Authentication failed or insufficient permissions''),
                              (''suggestion'',
                               ''Please re-authenticate with the required Gmail scopes''),
                              (''details'', error_text err)]\<rparr>, h')
          else (\<lparr>status = 500, payload = H [(''error'', error_text err)]\<rparr>, h')
      | (Inr s, h') \<Rightarrow>
          (\<lparr>status = 200,
            payload = Cleaned \<lparr>json_deleted = PerCategoryDeleted s,
                               json_total_deleted = TotalDeleted s,
                               json_completed = Completed s,
                               json_completion_reason = Reason s\<rparr>\<rparr>, h'))"

text \<open>
  \<open>CleanHandler.Clean\<close>. Decoding and validating the request is the framework's
  \<open>ShouldBindJSON\<close>, which fails or yields a request that satisfies \<open>binding_ok\<close>; the
  handler is modelled from that outcome on.
\<close>

definition Clean :: "provider \<Rightarrow> error + CleanRequest \<Rightarrow> history \<Rightarrow> response \<times> history" where
  "Clean p bound h =
     (case bound of
        Inl err \<Rightarrow> (\<lparr>status = 400, payload = H [(''error'', error_text err)]\<rparr>, h)
      | Inr req0 \<Rightarrow>
          (let req = (if MaxPerCategory req0 = 0 then req0\<lparr>MaxPerCategory := 1000000\<rparr>
                      else req0)
           in respond (CleanCategories p ''me'' (Categories req) (MaxPerCategory req) h)))"

section \<open>Vocabulary of the properties\<close>

text \<open>The sum of the values of a map with finitely many keys.\<close>

definition sum_values :: "(string \<rightharpoonup> int) \<Rightarrow> int" where
  "sum_values m = (\<Sum>k\<in>dom m. the (m k))"

text \<open>
  The test of the source on the pair returned by an estimate operation,
  \<open>err == nil && estimate > 0\<close>, read off a recorded check.
\<close>

definition found_remaining :: "check \<Rightarrow> bool" where
  "found_remaining c =
     (case c of CapReached \<Rightarrow> False | Estimated n err \<Rightarrow> err = None \<and> n > 0)"

text \<open>A category tripped one of the two conditions that clear \<open>completed\<close>.\<close>

definition tripped :: "int \<Rightarrow> report \<Rightarrow> bool" where
  "tripped maxPerCat r = (maxPerCat \<le> deleted r \<or> found_remaining (checked r))"

text \<open>
  The number of threads that the provider returned to the call at position \<open>j\<close> of a
  history (0 when the call failed or is no listing call).
\<close>

definition page_len :: "provider \<Rightarrow> history \<Rightarrow> nat \<Rightarrow> int" where
  "page_len p hist j =
     (case hist ! j of
        ThreadsList userID label n tok \<Rightarrow>
          (case list_do p (take j hist) userID label n tok of
             Inl err \<Rightarrow> 0
           | Inr res \<Rightarrow> int (length (Threads res)))
      | _ \<Rightarrow> 0)"

text \<open>
  The threads returned to the \<open>k\<close> calls from position \<open>start\<close> on: the value of
  \<open>totalFetched\<close> when a listing that began at \<open>start\<close> requests its page number \<open>k\<close>
  (counted from 0).
\<close>

definition fetched_before :: "provider \<Rightarrow> history \<Rightarrow> nat \<Rightarrow> nat \<Rightarrow> int" where
  "fetched_before p hist start k = sum_list (map (page_len p hist) [start..<start + k])"

text \<open>The provider answers every listing call for a label with as many threads as asked for.\<close>

definition returns_as_requested :: "provider \<Rightarrow> string \<Rightarrow> string \<Rightarrow> bool" where
  "returns_as_requested p userID label =
     (\<forall>h n tok res. 1 \<le> n \<longrightarrow> list_do p h userID label n tok = Inr res \<longrightarrow>
        int (length (Threads res)) = n)"

text \<open>
  The calls that a listing appended to the history \<open>h\<close>, giving \<open>h'\<close>: at least one, each a
  listing call for the label that asks for the smaller of what is still needed and 500.
\<close>

definition page_requests_ok ::
  "provider \<Rightarrow> string \<Rightarrow> string \<Rightarrow> int \<Rightarrow> history \<Rightarrow> history \<Rightarrow> bool" where
  "page_requests_ok p userID label max_results h h' =
     (take (length h) h' = h \<and> length h < length h'
      \<and> (\<forall>k < length h' - length h. \<exists>n tok.
            h' ! (length h + k) = ThreadsList userID label n tok
            \<and> n = min (max_results - fetched_before p h' (length h) k) 500
            \<and> n \<le> 500))"

text \<open>The provider answered the call at position \<open>j\<close> of a history with an error.\<close>

definition call_failed :: "provider \<Rightarrow> history \<Rightarrow> nat \<Rightarrow> bool" where
  "call_failed p hist j =
     (case hist ! j of
        ThreadsList userID label n tok \<Rightarrow> isl (list_do p (take j hist) userID label n tok)
      | ThreadsModify userID tid add remove \<Rightarrow>
          isl (modify_do p (take j hist) userID tid add remove)
      | ThreadsDelete userID tid \<Rightarrow> delete_do p (take j hist) userID tid \<noteq> None)"

text \<open>No call at a position from \<open>a\<close> up to, not including, \<open>b\<close> failed.\<close>

definition no_failure_between :: "provider \<Rightarrow> history \<Rightarrow> nat \<Rightarrow> nat \<Rightarrow> bool" where
  "no_failure_between p hist a b = list_all (\<lambda>j. \<not> call_failed p hist j) [a..<b]"

text \<open>
  The history \<open>h'\<close> extends \<open>h\<close> by at least one call, the last call of \<open>h'\<close> failed and
  no call before it since \<open>h\<close> did: the first failure was the last call made.
\<close>

definition aborts_at_first_failure :: "provider \<Rightarrow> history \<Rightarrow> history \<Rightarrow> bool" where
  "aborts_at_first_failure p h h' =
     (take (length h) h' = h \<and> length h < length h'
      \<and> no_failure_between p h' (length h) (length h' - 1)
      \<and> call_failed p h' (length h' - 1))"

text \<open>
  One call per thread identifier, in order: a delete for the label \<open>TRASH\<close>, and for any
  other label a modify that adds \<open>TRASH\<close> and removes \<open>INBOX\<close>.
\<close>

definition removal_calls :: "string \<Rightarrow> string \<Rightarrow> string list \<Rightarrow> call list" where
  "removal_calls userID label ids =
     (if label = ''TRASH'' then map (ThreadsDelete userID) ids
      else map (\<lambda>tid. ThreadsModify userID tid [''TRASH''] [''INBOX'']) ids)"

section \<open>Example providers\<close>

text \<open>Every listing call returns the single thread \<open>t1\<close> and estimates nothing left.\<close>

definition steady_provider :: provider where
  "steady_provider =
     \<lparr>list_do = (\<lambda>h userID label n tok.
         Inr \<lparr>Threads = [Thread ''t1''], NextPageToken = [], ResultSizeEstimate = 0\<rparr>),
      modify_do = (\<lambda>h userID tid add remove. Inr (Thread tid)),
      delete_do = (\<lambda>h userID tid. None)\<rparr>"

text \<open>
  No category holds a thread. A call for one result, which is what an estimate sends when
  the cap is not 1, fails for the social category and reports the estimate \<open>-1\<close> for any
  other label.
\<close>

definition flaky_estimate_provider :: provider where
  "flaky_estimate_provider =
     \<lparr>list_do = (\<lambda>h userID label n tok.
         if n = 1
         then (if label = ''CATEGORY_SOCIAL''
               then Inl (Error ''Error 503: backend unavailable'')
               else Inr \<lparr>Threads = [], NextPageToken = [], ResultSizeEstimate = - 1\<rparr>)
         else Inr \<lparr>Threads = [], NextPageToken = [], ResultSizeEstimate = 0\<rparr>),
      modify_do = (\<lambda>h userID tid add remove. Inr (Thread tid)),
      delete_do = (\<lambda>h userID tid. None)\<rparr>"

text \<open>
  The social category lists nothing but estimates five threads; every other label lists
  the thread \<open>t1\<close> and estimates nothing left.
\<close>

definition social_left_provider :: provider where
  "social_left_provider =
     \<lparr>list_do = (\<lambda>h userID label n tok.
         if label = ''CATEGORY_SOCIAL''
         then Inr \<lparr>Threads = [], NextPageToken = [], ResultSizeEstimate = 5\<rparr>
         else Inr \<lparr>Threads = [Thread ''t1''], NextPageToken = [], ResultSizeEstimate = 0\<rparr>),
      modify_do = (\<lambda>h userID tid add remove. Inr (Thread tid)),
      delete_do = (\<lambda>h userID tid. None)\<rparr>"

text \<open>Every listing call returns as many threads as asked for, and a token for more.\<close>

definition paging_provider :: provider where
  "paging_provider =
     \<lparr>list_do = (\<lambda>h userID label n tok.
         Inr \<lparr>Threads = replicate (nat n) (Thread ''t''), NextPageToken = ''next'',
              ResultSizeEstimate = 0\<rparr>),
      modify_do = (\<lambda>h userID tid add remove. Inr (Thread tid)),
      delete_do = (\<lambda>h userID tid. None)\<rparr>"

text \<open>
  A call for one result fails, so every estimate under a cap other than 1 fails. The
  updates category lists \<open>u1\<close>, any other label \<open>s1\<close> and \<open>s2\<close>; modifying \<open>s2\<close> fails.
\<close>

definition faulty_provider :: provider where
  "faulty_provider =
     \<lparr>list_do = (\<lambda>h userID label n tok.
         if n = 1 then Inl (Error ''Error 503: backend unavailable'')
         else if label = ''CATEGORY_UPDATES''
         then Inr \<lparr>Threads = [Thread ''u1''], NextPageToken = [], ResultSizeEstimate = 0\<rparr>
         else Inr \<lparr>Threads = [Thread ''s1'', Thread ''s2''], NextPageToken = [],
                   ResultSizeEstimate = 0\<rparr>),
      modify_do = (\<lambda>h userID tid add remove.
         if tid = ''s2'' then Inl (Error ''Error 500: backend error'') else Inr (Thread tid)),
      delete_do = (\<lambda>h userID tid. None)\<rparr>"

text \<open>Every listing call returns the threads \<open>t1\<close> and \<open>t2\<close> and estimates nothing left.\<close>

definition pair_provider :: provider where
  "pair_provider =
     \<lparr>list_do = (\<lambda>h userID label n tok.
         Inr \<lparr>Threads = [Thread ''t1'', Thread ''t2''], NextPageToken = [],
              ResultSizeEstimate = 0\<rparr>),
      modify_do = (\<lambda>h userID tid add remove. Inr (Thread tid)),
      delete_do = (\<lambda>h userID tid. None)\<rparr>"

text \<open>
  The very first call finds nothing; by every later call the thread \<open>t1\<close> has arrived.
  Estimates report nothing left.
\<close>

definition late_arrival_provider :: provider where
  "late_arrival_provider =
     \<lparr>list_do = (\<lambda>h userID label n tok.
         if h = [] then Inr \<lparr>Threads = [], NextPageToken = [], ResultSizeEstimate = 0\<rparr>
         else Inr \<lparr>Threads = [Thread ''t1''], NextPageToken = [], ResultSizeEstimate = 0\<rparr>),
      modify_do = (\<lambda>h userID tid add remove. Inr (Thread tid)),
      delete_do = (\<lambda>h userID tid. None)\<rparr>"

text \<open>Every listing call is refused for insufficient scopes.\<close>

definition forbidden_provider :: provider where
  "forbidden_provider =
     \<lparr>list_do = (\<lambda>h userID label n tok.
         Inl (Error ''googleapi: Error 403: Request had insufficient authentication scopes.'')),
      modify_do = (\<lambda>h userID tid add remove. Inr (Thread tid)),
      delete_do = (\<lambda>h userID tid. None)\<rparr>"

section \<open>The pagination loop\<close>

lemma fetched_before_0: "fetched_before p hist start 0 = 0"
  by (simp add: fetched_before_def)

lemma fetched_before_Suc:
  "fetched_before p hist start (Suc k)
     = page_len p hist start + fetched_before p hist (Suc start) k"
proof -
  have "[start..<start + Suc k] = start # [Suc start..<Suc start + k]"
    by (simp add: upt_conv_Cons del: upt_Suc)
  then show ?thesis
    by (simp add: fetched_before_def del: upt_Suc)
qed

lemma page_len_first:
  assumes "take (length h) h' = h" "length h < length h'"
    "h' ! length h = ThreadsList u label n tok" "list_do p h u label n tok = Inr res"
  shows "page_len p h' (length h) = int (length (Threads res))"
  using assms by (simp add: page_len_def)

lemma list_pages_Inl:
  "list_do p h u label (pageSize mx totalFetched) tok = Inl err \<Longrightarrow>
   list_pages p u label wrap mx allThreads tok pc totalFetched h
     = (Inl (wrap (pc + 1) err), h @ [ThreadsList u label (pageSize mx totalFetched) tok])"
  by (subst list_pages.simps) simp

lemma list_pages_stop:
  "list_do p h u label (pageSize mx totalFetched) tok = Inr res \<Longrightarrow>
   NextPageToken res = [] \<or> mx \<le> totalFetched + int (length (Threads res))
     \<or> length (Threads res) = 0 \<Longrightarrow>
   list_pages p u label wrap mx allThreads tok pc totalFetched h
     = (Inr (allThreads @ Threads res),
        h @ [ThreadsList u label (pageSize mx totalFetched) tok])"
  by (subst list_pages.simps) simp

lemma list_pages_continue:
  "list_do p h u label (pageSize mx totalFetched) tok = Inr res \<Longrightarrow>
   \<not> (NextPageToken res = [] \<or> mx \<le> totalFetched + int (length (Threads res))
       \<or> length (Threads res) = 0) \<Longrightarrow>
   list_pages p u label wrap mx allThreads tok pc totalFetched h
     = list_pages p u label wrap mx (allThreads @ Threads res) (NextPageToken res) (pc + 1)
         (totalFetched + int (length (Threads res)))
         (h @ [ThreadsList u label (pageSize mx totalFetched) tok])"
  by (subst list_pages.simps) simp

lemma list_pages_requests:
  "list_pages p u label wrap mx allThreads tok pc totalFetched h = (r, h') \<Longrightarrow>
   take (length h) h' = h \<and> length h < length h'
   \<and> (\<forall>k < length h' - length h. \<exists>tok'.
         h' ! (length h + k)
           = ThreadsList u label (pageSize mx (totalFetched + fetched_before p h' (length h) k)) tok')"
proof (induction p u label wrap mx allThreads tok pc totalFetched h arbitrary: r h'
       rule: list_pages.induct)
  case (1 p u label wrap mx allThreads tok pc totalFetched h)
  let ?c = "ThreadsList u label (pageSize mx totalFetched) tok"
  have one: ?case if "h' = h @ [?c]"
    using that by (simp add: fetched_before_0)
  show ?case
  proof (cases "list_do p h u label (pageSize mx totalFetched) tok")
    case (Inl err)
    with "1.prems" have "h' = h @ [?c]"
      by (simp add: list_pages_Inl)
    then show ?thesis by (rule one)
  next
    case (Inr res)
    let ?n = "int (length (Threads res))"
    show ?thesis
    proof (cases "NextPageToken res = [] \<or> mx \<le> totalFetched + ?n \<or> length (Threads res) = 0")
      case True
      with Inr "1.prems" have "h' = h @ [?c]"
        by (simp add: list_pages_stop)
      then show ?thesis by (rule one)
    next
      case False
      with Inr "1.prems" have rec:
        "list_pages p u label wrap mx (allThreads @ Threads res) (NextPageToken res) (pc + 1)
           (totalFetched + ?n) (h @ [?c]) = (r, h')"
        using list_pages_continue[OF Inr False] by simp
      from "1.IH"[OF Inr False rec] have
        t: "take (length (h @ [?c])) h' = h @ [?c]" and
        l: "length (h @ [?c]) < length h'" and
        k: "\<forall>k < length h' - length (h @ [?c]). \<exists>tok'.
              h' ! (length (h @ [?c]) + k)
                = ThreadsList u label
                    (pageSize mx (totalFetched + ?n + fetched_before p h' (length (h @ [?c])) k)) tok'"
        by blast+
      have th: "take (length h) h' = h"
        using t by (metis butlast_snoc butlast_take diff_Suc_1 l less_imp_le_nat
            length_append_singleton)
      have lh: "length h < length h'"
        using l by simp
      have first: "h' ! length h = ?c"
        using t lh by (metis nth_append_length nth_take length_append_singleton lessI)
      have pl: "page_len p h' (length h) = ?n"
        using page_len_first[OF th lh first Inr] .
      have "\<exists>tok'. h' ! (length h + j)
              = ThreadsList u label (pageSize mx (totalFetched + fetched_before p h' (length h) j)) tok'"
        if "j < length h' - length h" for j
      proof (cases j)
        case 0
        then show ?thesis using first by (simp add: fetched_before_0)
      next
        case (Suc j')
        with that have "j' < length h' - length (h @ [?c])" by simp
        with k obtain tok' where
          "h' ! (length (h @ [?c]) + j')
             = ThreadsList u label
                 (pageSize mx (totalFetched + ?n + fetched_before p h' (length (h @ [?c])) j')) tok'"
          by blast
        then show ?thesis
          using Suc pl by (simp add: fetched_before_Suc add.assoc)
      qed
      with th lh show ?thesis by blast
    qed
  qed
qed

lemma pageSize_min: "pageSize mx totalFetched = min (mx - totalFetched) 500"
  by (simp add: pageSize_def maxPerPage_def Let_def min_def)

lemma list_pages_stop_iff:
  assumes "list_do p h u label (pageSize mx totalFetched) tok = Inr res"
  shows "(snd (list_pages p u label wrap mx allThreads tok pc totalFetched h)
            = h @ [ThreadsList u label (pageSize mx totalFetched) tok])
         \<longleftrightarrow> (NextPageToken res = [] \<or> mx \<le> totalFetched + int (length (Threads res))
              \<or> length (Threads res) = 0)"
proof (cases "NextPageToken res = [] \<or> mx \<le> totalFetched + int (length (Threads res))
              \<or> length (Threads res) = 0")
  case True
  with assms show ?thesis
    by (simp add: list_pages_stop)
next
  case False
  let ?c = "ThreadsList u label (pageSize mx totalFetched) tok"
  obtain r h' where rec:
    "list_pages p u label wrap mx (allThreads @ Threads res) (NextPageToken res) (pc + 1)
       (totalFetched + int (length (Threads res))) (h @ [?c]) = (r, h')"
    by (cases "list_pages p u label wrap mx (allThreads @ Threads res) (NextPageToken res)
                 (pc + 1) (totalFetched + int (length (Threads res))) (h @ [?c])")
  from list_pages_requests[OF rec] have "length (h @ [?c]) < length h'"
    by blast
  then have "h' \<noteq> h @ [?c]"
    by auto
  moreover have "snd (list_pages p u label wrap mx allThreads tok pc totalFetched h) = h'"
    using list_pages_continue[OF assms False] rec by simp
  ultimately show ?thesis
    using False by simp
qed

lemma list_pages_count:
  "list_pages p u label wrap mx allThreads tok pc totalFetched h = (r, h') \<Longrightarrow>
   int (length h') - int (length h) \<le> max 1 (mx - totalFetched)"
proof (induction p u label wrap mx allThreads tok pc totalFetched h arbitrary: r h'
       rule: list_pages.induct)
  case (1 p u label wrap mx allThreads tok pc totalFetched h)
  let ?c = "ThreadsList u label (pageSize mx totalFetched) tok"
  show ?case
  proof (cases "list_do p h u label (pageSize mx totalFetched) tok")
    case (Inl err)
    with "1.prems" show ?thesis
      by (auto simp: list_pages_Inl)
  next
    case (Inr res)
    let ?n = "int (length (Threads res))"
    show ?thesis
    proof (cases "NextPageToken res = [] \<or> mx \<le> totalFetched + ?n \<or> length (Threads res) = 0")
      case True
      with Inr "1.prems" show ?thesis
        by (auto simp: list_pages_stop)
    next
      case False
      with Inr "1.prems" have rec:
        "list_pages p u label wrap mx (allThreads @ Threads res) (NextPageToken res) (pc + 1)
           (totalFetched + ?n) (h @ [?c]) = (r, h')"
        using list_pages_continue[OF Inr False] by simp
      from "1.IH"[OF Inr False rec] have
        "int (length h') - int (length (h @ [?c])) \<le> max 1 (mx - (totalFetched + ?n))" .
      moreover have "1 \<le> ?n" "totalFetched + ?n < mx"
        using False by (cases "Threads res", auto)
      ultimately show ?thesis
        by auto
    qed
  qed
qed

lemma list_pages_count_full:
  "list_pages p u label wrap mx allThreads tok pc totalFetched h = (r, h') \<Longrightarrow>
   returns_as_requested p u label \<Longrightarrow> totalFetched < mx \<Longrightarrow>
   int (length h') - int (length h) \<le> (mx - totalFetched + 499) div 500"
proof (induction p u label wrap mx allThreads tok pc totalFetched h arbitrary: r h'
       rule: list_pages.induct)
  case (1 p u label wrap mx allThreads tok pc totalFetched h)
  let ?c = "ThreadsList u label (pageSize mx totalFetched) tok"
  have "500 \<le> mx - totalFetched + 499"
    using "1.prems"(3) by simp
  then have "0 < (mx - totalFetched + 499) div 500"
    by (simp only: pos_imp_zdiv_pos_iff[of 500])
  then have pos: "1 \<le> (mx - totalFetched + 499) div 500"
    by simp
  show ?case
  proof (cases "list_do p h u label (pageSize mx totalFetched) tok")
    case (Inl err)
    with "1.prems"(1) pos show ?thesis
      by (auto simp: list_pages_Inl)
  next
    case (Inr res)
    let ?n = "int (length (Threads res))"
    have "1 \<le> pageSize mx totalFetched"
      using "1.prems"(3) by (simp add: pageSize_min)
    with Inr "1.prems"(2) have n: "?n = pageSize mx totalFetched"
      unfolding returns_as_requested_def by blast
    show ?thesis
    proof (cases "NextPageToken res = [] \<or> mx \<le> totalFetched + ?n \<or> length (Threads res) = 0")
      case True
      with Inr "1.prems"(1) pos show ?thesis
        by (auto simp: list_pages_stop)
    next
      case False
      with Inr "1.prems"(1) have rec:
        "list_pages p u label wrap mx (allThreads @ Threads res) (NextPageToken res) (pc + 1)
           (totalFetched + ?n) (h @ [?c]) = (r, h')"
        using list_pages_continue[OF Inr False] by simp
      have lt: "totalFetched + ?n < mx"
        using False by auto
      with n have n500: "?n = 500"
        by (simp add: pageSize_min min_def split: if_splits)
      from "1.IH"[OF Inr False rec "1.prems"(2) lt] have
        "int (length h') - int (length (h @ [?c])) \<le> (mx - (totalFetched + ?n) + 499) div 500" .
      with n500 have "int (length h') - int (length h) - 1 \<le> (mx - totalFetched - 1) div 500"
        by (simp add: algebra_simps)
      moreover have "(mx - totalFetched - 1) div 500 + 1 = (mx - totalFetched + 499) div 500"
      proof -
        have "mx - totalFetched + 499 = (mx - totalFetched - 1) + 500"
          by simp
        then show ?thesis
          by (simp only: div_add_self2)
      qed
      ultimately show ?thesis
        by linarith
    qed
  qed
qed

lemma list_pages_requests_ok:
  assumes "list_pages p u label wrap mx [] [] 0 0 h = (r, h')"
  shows "page_requests_ok p u label mx h h'"
  using list_pages_requests[OF assms]
  unfolding page_requests_ok_def by (auto simp: pageSize_min)

text \<open>
  C6. In every listing, by \<open>ListCategoryThreads\<close> and by \<open>ListTrashThreads\<close> and for any
  maximum, every page request asks the provider for exactly
  \<open>min (max - totalFetched) 500\<close> threads, where \<open>totalFetched\<close> is the number of threads that
  the earlier pages of this listing returned; so no request asks for more than 500.
\<close>

theorem C6_page_requests:
  "page_requests_ok p u label mx h (snd (ListCategoryThreads p u label mx h))
   \<and> page_requests_ok p u ''TRASH'' mx h (snd (ListTrashThreads p u mx h))"
proof
  show "page_requests_ok p u label mx h (snd (ListCategoryThreads p u label mx h))"
    unfolding ListCategoryThreads_def
    by (rule list_pages_requests_ok[OF surjective_pairing])
  show "page_requests_ok p u ''TRASH'' mx h (snd (ListTrashThreads p u mx h))"
    unfolding ListTrashThreads_def
    by (rule list_pages_requests_ok[OF surjective_pairing])
qed

lemmas list_simps =
  ListCategoryThreads_def ListTrashThreads_def list_pages.simps pageSize_def maxPerPage_def
  Let_def

lemma paging_updates_run:
  "snd (ListCategoryThreads paging_provider ''me'' ''CATEGORY_UPDATES'' 1200 [])
     = [ThreadsList ''me'' ''CATEGORY_UPDATES'' 500 [],
        ThreadsList ''me'' ''CATEGORY_UPDATES'' 500 ''next'',
        ThreadsList ''me'' ''CATEGORY_UPDATES'' 200 ''next'']"
  by (simp add: list_simps paging_provider_def)

lemma paging_trash_run:
  "snd (ListTrashThreads paging_provider ''me'' 1200 [])
     = [ThreadsList ''me'' ''TRASH'' 500 [],
        ThreadsList ''me'' ''TRASH'' 500 ''next'',
        ThreadsList ''me'' ''TRASH'' 200 ''next'']"
  by (simp add: list_simps paging_provider_def)

text \<open>
  A maximum of 1200 against the provider that fills every page: the requests are for 500,
  500 and 200 threads, the last one after 1000 threads were fetched.
\<close>

theorem C6_page_requests_witness:
  "snd (ListCategoryThreads paging_provider ''me'' ''CATEGORY_UPDATES'' 1200 [])
     = [ThreadsList ''me'' ''CATEGORY_UPDATES'' 500 [],
        ThreadsList ''me'' ''CATEGORY_UPDATES'' 500 ''next'',
        ThreadsList ''me'' ''CATEGORY_UPDATES'' 200 ''next'']
   \<and> fetched_before paging_provider
        [ThreadsList ''me'' ''CATEGORY_UPDATES'' 500 [],
         ThreadsList ''me'' ''CATEGORY_UPDATES'' 500 ''next'',
         ThreadsList ''me'' ''CATEGORY_UPDATES'' 200 ''next''] 0 2 = 1000
   \<and> page_requests_ok paging_provider ''me'' ''CATEGORY_UPDATES'' 1200 []
        [ThreadsList ''me'' ''CATEGORY_UPDATES'' 500 [],
         ThreadsList ''me'' ''CATEGORY_UPDATES'' 500 ''next'',
         ThreadsList ''me'' ''CATEGORY_UPDATES'' 200 ''next'']
   \<and> page_requests_ok paging_provider ''me'' ''TRASH'' 1200 []
        [ThreadsList ''me'' ''TRASH'' 500 [],
         ThreadsList ''me'' ''TRASH'' 500 ''next'',
         ThreadsList ''me'' ''TRASH'' 200 ''next'']"
proof -
  have f: "fetched_before paging_provider
        [ThreadsList ''me'' ''CATEGORY_UPDATES'' 500 [],
         ThreadsList ''me'' ''CATEGORY_UPDATES'' 500 ''next'',
         ThreadsList ''me'' ''CATEGORY_UPDATES'' 200 ''next''] 0 2 = 1000"
    by (simp add: fetched_before_def page_len_def paging_provider_def)
  from C6_page_requests[of paging_provider "''me''" "''CATEGORY_UPDATES''" 1200 "[]"]
  show ?thesis
    using f by (simp add: paging_updates_run paging_trash_run)
qed

text \<open>
  C7. For a maximum of at least 1: after any page that the provider answered, the loop
  stops (this call was its last) exactly when the continuation token is absent, or
  \<open>totalFetched\<close> has reached the maximum, or the page held no thread. The function is
  total, so the loop always ends; a listing makes at most \<open>max\<close> page requests, and at
  most \<open>(max + 499) div 500\<close>, the ceiling of \<open>max / 500\<close>, when every page returns as many
  threads as requested.
\<close>

theorem C7_pagination_stops:
  assumes "1 \<le> mx"
  shows "(\<forall>res. list_do p h u label (pageSize mx totalFetched) tok = Inr res \<longrightarrow>
            (snd (list_pages p u label wrap mx allThreads tok pc totalFetched h)
               = h @ [ThreadsList u label (pageSize mx totalFetched) tok])
            = (NextPageToken res = [] \<or> mx \<le> totalFetched + int (length (Threads res))
               \<or> length (Threads res) = 0))
         \<and> int (length (snd (ListCategoryThreads p u label mx h))) - int (length h) \<le> mx
         \<and> int (length (snd (ListTrashThreads p u mx h))) - int (length h) \<le> mx
         \<and> (returns_as_requested p u label \<longrightarrow>
              int (length (snd (ListCategoryThreads p u label mx h))) - int (length h)
                \<le> (mx + 499) div 500)
         \<and> (returns_as_requested p u ''TRASH'' \<longrightarrow>
              int (length (snd (ListTrashThreads p u mx h))) - int (length h)
                \<le> (mx + 499) div 500)"
proof (intro conjI allI impI)
  fix res
  assume "list_do p h u label (pageSize mx totalFetched) tok = Inr res"
  then show "(snd (list_pages p u label wrap mx allThreads tok pc totalFetched h)
               = h @ [ThreadsList u label (pageSize mx totalFetched) tok])
            = (NextPageToken res = [] \<or> mx \<le> totalFetched + int (length (Threads res))
               \<or> length (Threads res) = 0)"
    by (rule list_pages_stop_iff)
next
  have "int (length (snd (list_pages p u label (category_page_error label) mx [] [] 0 0 h)))
          - int (length h) \<le> max 1 (mx - 0)"
    by (rule list_pages_count[OF surjective_pairing])
  with assms show
    "int (length (snd (ListCategoryThreads p u label mx h))) - int (length h) \<le> mx"
    by (simp add: ListCategoryThreads_def)
next
  have "int (length (snd (list_pages p u ''TRASH'' trash_page_error mx [] [] 0 0 h)))
          - int (length h) \<le> max 1 (mx - 0)"
    by (rule list_pages_count[OF surjective_pairing])
  with assms show "int (length (snd (ListTrashThreads p u mx h))) - int (length h) \<le> mx"
    by (simp add: ListTrashThreads_def)
next
  assume "returns_as_requested p u label"
  with assms have
    "int (length (snd (list_pages p u label (category_page_error label) mx [] [] 0 0 h)))
       - int (length h) \<le> (mx - 0 + 499) div 500"
    by (intro list_pages_count_full[OF surjective_pairing]) simp_all
  then show "int (length (snd (ListCategoryThreads p u label mx h))) - int (length h)
                \<le> (mx + 499) div 500"
    by (simp add: ListCategoryThreads_def)
next
  assume "returns_as_requested p u ''TRASH''"
  with assms have
    "int (length (snd (list_pages p u ''TRASH'' trash_page_error mx [] [] 0 0 h)))
       - int (length h) \<le> (mx - 0 + 499) div 500"
    by (intro list_pages_count_full[OF surjective_pairing]) simp_all
  then show "int (length (snd (ListTrashThreads p u mx h))) - int (length h)
                \<le> (mx + 499) div 500"
    by (simp add: ListTrashThreads_def)
qed

lemma paging_returns_as_requested: "returns_as_requested paging_provider u label"
  by (simp add: returns_as_requested_def paging_provider_def)

text \<open>
  A maximum of 1200 against the provider that fills every page and always has a token:
  the first page does not stop the loop, and three pages are requested.
\<close>

theorem C7_pagination_stops_witness:
  "(1::int) \<le> 1200
   \<and> returns_as_requested paging_provider ''me'' ''CATEGORY_UPDATES''
   \<and> returns_as_requested paging_provider ''me'' ''TRASH''
   \<and> list_do paging_provider [] ''me'' ''CATEGORY_UPDATES'' (pageSize 1200 0) []
       = Inr \<lparr>Threads = replicate 500 (Thread ''t''), NextPageToken = ''next'',
              ResultSizeEstimate = 0\<rparr>
   \<and> snd (list_pages paging_provider ''me'' ''CATEGORY_UPDATES''
             (category_page_error ''CATEGORY_UPDATES'') 1200 [] [] 0 0 [])
       \<noteq> [] @ [ThreadsList ''me'' ''CATEGORY_UPDATES'' (pageSize 1200 0) []]
   \<and> int (length (snd (ListCategoryThreads paging_provider ''me'' ''CATEGORY_UPDATES'' 1200 [])))
       - int (length ([]::history)) = 3
   \<and> int (length (snd (ListTrashThreads paging_provider ''me'' 1200 [])))
       - int (length ([]::history)) = 3
   \<and> (1200 + 499) div 500 = (3::int)"
proof -
  have m: "(1::int) \<le> 1200"
    by simp
  have r: "list_do paging_provider [] ''me'' ''CATEGORY_UPDATES'' (pageSize 1200 0) []
       = Inr \<lparr>Threads = replicate 500 (Thread ''t''), NextPageToken = ''next'',
              ResultSizeEstimate = 0\<rparr>"
    by (simp add: paging_provider_def pageSize_def maxPerPage_def)
  from C7_pagination_stops[OF m, where p = paging_provider and h = "[]" and u = "''me''"
      and label = "''CATEGORY_UPDATES''" and totalFetched = 0 and tok = "[]"
      and wrap = "category_page_error ''CATEGORY_UPDATES''" and allThreads = "[]" and pc = 0] r
  show ?thesis
    using paging_returns_as_requested
    by (simp add: paging_updates_run paging_trash_run)
qed

section \<open>The loop of CleanCategories\<close>

lemmas run_simps =
  CleanCategories_def initial_state_def summary_def clean_category_def list_threads_def
  remove_threads_def estimate_threads_def ListCategoryThreads_def ListTrashThreads_def
  EstimateCategoryThreads_def EstimateTrashThreads_def BatchTrashThreads_def
  BatchDeleteThreadsPermanently_def list_pages.simps pageSize_def maxPerPage_def Let_def

text \<open>What one successful iteration does to the loop variables, with the values named.\<close>

lemma clean_category_Inr_values:
  assumes "clean_category p u m c st h = (Inr st', h')"
  shows "0 \<le> the (result st' c) \<and> result st' = (result st)(c \<mapsto> the (result st' c))
           \<and> total st' = total st + the (result st' c)
           \<and> reports st'
               = reports st @ [Report c (the (result st' c)) (checked (last (reports st')))]
           \<and> (checked (last (reports st')) = CapReached \<longleftrightarrow> m \<le> the (result st' c))
           \<and> (completed st' \<longleftrightarrow> completed st \<and> \<not> m \<le> the (result st' c)
                 \<and> \<not> found_remaining (checked (last (reports st'))))
           \<and> reason st' =
               (if m \<le> the (result st' c)
                then ''max per category reached; more emails may remain''
                else if found_remaining (checked (last (reports st')))
                     then ''remaining emails detected in one or more categories''
                     else reason st)"
  using assms
  by (auto simp: clean_category_def Let_def found_remaining_def
           split: prod.splits sum.splits option.splits if_splits)

lemma clean_category_Inr:
  assumes "clean_category p u m c st h = (Inr st', h')"
  shows "\<exists>d chk. 0 \<le> d \<and> result st' = (result st)(c \<mapsto> d) \<and> total st' = total st + d
           \<and> reports st' = reports st @ [Report c d chk]
           \<and> (chk = CapReached \<longleftrightarrow> m \<le> d)
           \<and> (completed st' \<longleftrightarrow> completed st \<and> \<not> m \<le> d \<and> \<not> found_remaining chk)
           \<and> reason st' =
               (if m \<le> d then ''max per category reached; more emails may remain''
                else if found_remaining chk
                     then ''remaining emails detected in one or more categories''
                     else reason st)"
  using clean_category_Inr_values[OF assms] by blast

lemma clean_loop_Cons_Inr:
  assumes "clean_loop p u m (c # cs) st h = (Inr st', h')"
  obtains st1 h1 where "clean_category p u m c st h = (Inr st1, h1)"
    and "clean_loop p u m cs st1 h1 = (Inr st', h')"
  using assms by (auto split: prod.splits sum.splits)

lemma clean_loop_append:
  "clean_loop p u m (cs @ ds) st h =
     (case clean_loop p u m cs st h of
        (Inl err, h') \<Rightarrow> (Inl err, h')
      | (Inr st', h') \<Rightarrow> clean_loop p u m ds st' h')"
  by (induction cs arbitrary: st h) (auto split: prod.splits sum.splits)

lemma CleanCategories_Inr:
  "CleanCategories p u cs m h = (Inr s, h') \<longleftrightarrow>
   (\<exists>st. clean_loop p u m cs initial_state h = (Inr st, h') \<and> s = summary st)"
  by (auto simp: CleanCategories_def split: prod.splits sum.splits)

subsection \<open>The keys and the total\<close>

lemma clean_loop_dom:
  "clean_loop p u m cs st h = (Inr st', h') \<Longrightarrow>
   dom (result st') = dom (result st) \<union> set cs"
proof (induction cs arbitrary: st h)
  case Nil
  then show ?case by simp
next
  case (Cons c cs)
  from Cons.prems obtain st1 h1 where
    1: "clean_category p u m c st h = (Inr st1, h1)" and
    2: "clean_loop p u m cs st1 h1 = (Inr st', h')"
    by (rule clean_loop_Cons_Inr)
  from clean_category_Inr[OF 1] obtain d where "result st1 = (result st)(c \<mapsto> d)"
    by blast
  then have "dom (result st1) = insert c (dom (result st))"
    by simp
  with Cons.IH[OF 2] show ?case
    by auto
qed

lemma sum_values_upd:
  assumes "finite (dom m)" and "c \<notin> dom m"
  shows "sum_values (m(c \<mapsto> d)) = sum_values m + d"
proof -
  have "(\<Sum>k\<in>dom m. the ((m(c \<mapsto> d)) k)) = (\<Sum>k\<in>dom m. the (m k))"
    using assms(2) by (intro sum.cong) auto
  then show ?thesis
    using assms by (simp add: sum_values_def)
qed

lemma clean_loop_total:
  "clean_loop p u m cs st h = (Inr st', h') \<Longrightarrow> finite (dom (result st)) \<Longrightarrow>
   distinct cs \<Longrightarrow> set cs \<inter> dom (result st) = {} \<Longrightarrow> total st = sum_values (result st) \<Longrightarrow>
   total st' = sum_values (result st')"
proof (induction cs arbitrary: st h)
  case Nil
  then show ?case by simp
next
  case (Cons c cs)
  from Cons.prems(1) obtain st1 h1 where
    1: "clean_category p u m c st h = (Inr st1, h1)" and
    2: "clean_loop p u m cs st1 h1 = (Inr st', h')"
    by (rule clean_loop_Cons_Inr)
  from clean_category_Inr[OF 1] obtain d where
    r: "result st1 = (result st)(c \<mapsto> d)" and t: "total st1 = total st + d"
    by blast
  have c: "c \<notin> dom (result st)"
    using Cons.prems(4) by auto
  have "total st1 = sum_values (result st1)"
    using r t sum_values_upd[OF Cons.prems(2) c] Cons.prems(5) by simp
  moreover have "finite (dom (result st1))"
    using r Cons.prems(2) by simp
  moreover have "set cs \<inter> dom (result st1) = {}"
    using r Cons.prems(3,4) by auto
  ultimately show ?case
    using Cons.IH[OF 2] Cons.prems(3) by simp
qed

text \<open>
  C1, as amended. When \<open>CleanCategories\<close> returns a summary, the keys of
  \<open>PerCategoryDeleted\<close> are exactly the requested labels (one entry per distinct label),
  and if no label is requested twice then \<open>TotalDeleted\<close> is the sum of the values of
  \<open>PerCategoryDeleted\<close>.
\<close>

theorem C1_entries_and_total:
  assumes "CleanCategories p u cs m h = (Inr s, h')"
  shows "dom (PerCategoryDeleted s) = set cs
         \<and> (distinct cs \<longrightarrow> TotalDeleted s = sum_values (PerCategoryDeleted s))"
proof -
  from assms obtain st where
    l: "clean_loop p u m cs initial_state h = (Inr st, h')" and s: "s = summary st"
    unfolding CleanCategories_Inr by blast
  have i: "finite (dom (result initial_state))" "set cs \<inter> dom (result initial_state) = {}"
    "total initial_state = sum_values (result initial_state)"
    by (simp_all add: initial_state_def sum_values_def)
  show ?thesis
    using clean_loop_dom[OF l] clean_loop_total[OF l i(1) _ i(2) i(3)] s
    by (simp add: summary_def initial_state_def)
qed

text \<open>
  A request for the social category and the trash, against the provider that always
  lists one thread: two entries of one thread each, and a total of two.
\<close>

theorem C1_entries_and_total_witness:
  "CleanCategories steady_provider ''me'' [''CATEGORY_SOCIAL'', ''TRASH''] 10 []
     = (Inr \<lparr>PerCategoryDeleted = Map.empty(''CATEGORY_SOCIAL'' \<mapsto> 1, ''TRASH'' \<mapsto> 1),
             TotalDeleted = 2, Completed = True, Reason = ''all categories processed''\<rparr>,
        [ThreadsList ''me'' ''CATEGORY_SOCIAL'' 10 [],
         ThreadsModify ''me'' ''t1'' [''TRASH''] [''INBOX''],
         ThreadsList ''me'' ''CATEGORY_SOCIAL'' 1 [],
         ThreadsList ''me'' ''TRASH'' 10 [],
         ThreadsDelete ''me'' ''t1'',
         ThreadsList ''me'' ''TRASH'' 1 []])
   \<and> dom (Map.empty(''CATEGORY_SOCIAL'' \<mapsto> 1::int, ''TRASH'' \<mapsto> 1))
       = set [''CATEGORY_SOCIAL'', ''TRASH'']
   \<and> distinct [''CATEGORY_SOCIAL'', ''TRASH'']
   \<and> sum_values (Map.empty(''CATEGORY_SOCIAL'' \<mapsto> 1, ''TRASH'' \<mapsto> 1)) = 2"
proof -
  have run: "CleanCategories steady_provider ''me'' [''CATEGORY_SOCIAL'', ''TRASH''] 10 []
     = (Inr \<lparr>PerCategoryDeleted = Map.empty(''CATEGORY_SOCIAL'' \<mapsto> 1, ''TRASH'' \<mapsto> 1),
             TotalDeleted = 2, Completed = True, Reason = ''all categories processed''\<rparr>,
        [ThreadsList ''me'' ''CATEGORY_SOCIAL'' 10 [],
         ThreadsModify ''me'' ''t1'' [''TRASH''] [''INBOX''],
         ThreadsList ''me'' ''CATEGORY_SOCIAL'' 1 [],
         ThreadsList ''me'' ''TRASH'' 10 [],
         ThreadsDelete ''me'' ''t1'',
         ThreadsList ''me'' ''TRASH'' 1 []])"
    by (simp add: run_simps steady_provider_def)
  have d: "distinct [''CATEGORY_SOCIAL'', ''TRASH'']"
    by simp
  from C1_entries_and_total[OF run] d show ?thesis
    using run by simp
qed

text \<open>
  C1 as stated fails when a label is requested twice: the second pass overwrites the
  entry of the first, while the total counts both. Here the social category is cleaned
  twice, one thread each time: the total is 2 and the values sum to 1.
\<close>

theorem C1_duplicate_label_counterexample:
  "fst (CleanCategories steady_provider ''me'' [''CATEGORY_SOCIAL'', ''CATEGORY_SOCIAL''] 10 [])
     = Inr \<lparr>PerCategoryDeleted = Map.empty(''CATEGORY_SOCIAL'' \<mapsto> 1), TotalDeleted = 2,
            Completed = True, Reason = ''all categories processed''\<rparr>
   \<and> sum_values (Map.empty(''CATEGORY_SOCIAL'' \<mapsto> 1)) = 1"
  by (simp add: run_simps steady_provider_def sum_values_def)

subsection \<open>Completion and its reason\<close>

lemma clean_loop_reports:
  "clean_loop p u m cs st h = (Inr st', h') \<Longrightarrow>
   \<exists>rs. reports st' = reports st @ rs \<and> map category rs = cs
        \<and> (\<forall>r\<in>set rs. 0 \<le> deleted r \<and> (checked r = CapReached \<longleftrightarrow> m \<le> deleted r))
        \<and> (completed st' \<longleftrightarrow> completed st \<and> (\<forall>r\<in>set rs. \<not> tripped m r))
        \<and> ((\<forall>r\<in>set rs. \<not> tripped m r) \<longrightarrow> reason st' = reason st)"
proof (induction cs arbitrary: st h)
  case Nil
  then show ?case by simp
next
  case (Cons c cs)
  from Cons.prems obtain st1 h1 where
    1: "clean_category p u m c st h = (Inr st1, h1)" and
    2: "clean_loop p u m cs st1 h1 = (Inr st', h')"
    by (rule clean_loop_Cons_Inr)
  from clean_category_Inr[OF 1] obtain d chk where s:
    "0 \<le> d" "reports st1 = reports st @ [Report c d chk]" "chk = CapReached \<longleftrightarrow> m \<le> d"
    "completed st1 \<longleftrightarrow> completed st \<and> \<not> m \<le> d \<and> \<not> found_remaining chk"
    "reason st1 = (if m \<le> d then ''max per category reached; more emails may remain''
                   else if found_remaining chk
                        then ''remaining emails detected in one or more categories''
                        else reason st)"
    by blast
  from Cons.IH[OF 2] obtain rs where r:
    "reports st' = reports st1 @ rs" "map category rs = cs"
    "\<forall>r\<in>set rs. 0 \<le> deleted r \<and> (checked r = CapReached \<longleftrightarrow> m \<le> deleted r)"
    "completed st' \<longleftrightarrow> completed st1 \<and> (\<forall>r\<in>set rs. \<not> tripped m r)"
    "(\<forall>r\<in>set rs. \<not> tripped m r) \<longrightarrow> reason st' = reason st1"
    by blast
  let ?rs = "Report c d chk # rs"
  have "reports st' = reports st @ ?rs"
    using s(2) r(1) by simp
  moreover have "map category ?rs = c # cs"
    using r(2) by simp
  moreover have "\<forall>r\<in>set ?rs. 0 \<le> deleted r \<and> (checked r = CapReached \<longleftrightarrow> m \<le> deleted r)"
    using s(1,3) r(3) by simp
  moreover have "completed st' \<longleftrightarrow> completed st \<and> (\<forall>r\<in>set ?rs. \<not> tripped m r)"
    using s(4) r(4) by (auto simp: tripped_def)
  moreover have "(\<forall>r\<in>set ?rs. \<not> tripped m r) \<longrightarrow> reason st' = reason st"
    using s(5) r(5) by (auto simp: tripped_def)
  ultimately show ?case
    by - (rule exI[of _ ?rs], simp)
qed

text \<open>The last category that tripped a condition wrote the reason that is returned.\<close>

lemma clean_loop_last_tripped:
  "clean_loop p u m cs st h = (Inr st', h') \<Longrightarrow>
   reports st' = reports st @ rs1 @ r # rs2 \<Longrightarrow> tripped m r \<Longrightarrow>
   \<forall>r'\<in>set rs2. \<not> tripped m r' \<Longrightarrow>
   reason st' = (if m \<le> deleted r then ''max per category reached; more emails may remain''
                 else ''remaining emails detected in one or more categories'')"
proof (induction cs arbitrary: st h rs1)
  case Nil
  then show ?case by simp
next
  case (Cons c cs)
  from Cons.prems(1) obtain st1 h1 where
    1: "clean_category p u m c st h = (Inr st1, h1)" and
    2: "clean_loop p u m cs st1 h1 = (Inr st', h')"
    by (rule clean_loop_Cons_Inr)
  from clean_category_Inr[OF 1] obtain d chk where s:
    "reports st1 = reports st @ [Report c d chk]"
    "reason st1 = (if m \<le> d then ''max per category reached; more emails may remain''
                   else if found_remaining chk
                        then ''remaining emails detected in one or more categories''
                        else reason st)"
    by blast
  from clean_loop_reports[OF 2] obtain rs where r:
    "reports st' = reports st1 @ rs"
    "(\<forall>r\<in>set rs. \<not> tripped m r) \<longrightarrow> reason st' = reason st1"
    by blast
  have eq: "Report c d chk # rs = rs1 @ r # rs2"
    using Cons.prems(2) s(1) r(1) by simp
  show ?case
  proof (cases rs1)
    case Nil
    with eq have "r = Report c d chk" "rs = rs2"
      by simp_all
    with r(2) Cons.prems(3,4) s(2) show ?thesis
      by (auto simp: tripped_def)
  next
    case (Cons x xs)
    with eq have "rs = xs @ r # rs2"
      by simp
    with r(1) have "reports st' = reports st1 @ xs @ r # rs2"
      by simp
    from Cons.IH[OF 2 this Cons.prems(3,4)] show ?thesis .
  qed
qed

text \<open>
  C2, as amended. When \<open>CleanCategories\<close> returns a summary, the run has one report per
  requested category, in order, and \<open>Completed\<close> holds if and only if in every category
  the deleted count stayed below the cap and the estimate did not succeed with a positive
  number: an estimate that failed, or that reported zero or less, counts as nothing
  remaining. When \<open>Completed\<close> holds the reason is the default one.
\<close>

theorem C2_completed_iff:
  assumes "CleanCategories p u cs m h = (Inr s, h')"
  shows "\<exists>st. clean_loop p u m cs initial_state h = (Inr st, h') \<and> s = summary st
           \<and> map category (reports st) = cs
           \<and> (Completed s \<longleftrightarrow>
                (\<forall>r\<in>set (reports st). deleted r < m \<and> \<not> found_remaining (checked r)))
           \<and> (Completed s \<longrightarrow> Reason s = ''all categories processed'')"
proof -
  from assms obtain st where
    l: "clean_loop p u m cs initial_state h = (Inr st, h')" and s: "s = summary st"
    unfolding CleanCategories_Inr by blast
  from clean_loop_reports[OF l] obtain rs where r:
    "reports st = reports initial_state @ rs" "map category rs = cs"
    "completed st \<longleftrightarrow> completed initial_state \<and> (\<forall>r\<in>set rs. \<not> tripped m r)"
    "(\<forall>r\<in>set rs. \<not> tripped m r) \<longrightarrow> reason st = reason initial_state"
    by blast
  have rs: "reports st = rs"
    using r(1) by (simp add: initial_state_def)
  have "map category (reports st) = cs"
    using rs r(2) by simp
  moreover have "Completed s \<longleftrightarrow>
      (\<forall>r\<in>set (reports st). deleted r < m \<and> \<not> found_remaining (checked r))"
    using r(3) rs s by (auto simp: summary_def initial_state_def tripped_def not_le)
  moreover have "Completed s \<longrightarrow> Reason s = ''all categories processed''"
    using r(3,4) s by (simp add: summary_def initial_state_def)
  ultimately show ?thesis
    using l s by blast
qed

text \<open>
  Two empty categories under a cap of 10, the estimate of the first failing and that of
  the second reporting \<open>-1\<close>: the summary is complete, with the default reason.
\<close>

theorem C2_completed_iff_witness:
  "Completed \<lparr>PerCategoryDeleted = Map.empty(''CATEGORY_SOCIAL'' \<mapsto> 0, ''CATEGORY_UPDATES'' \<mapsto> 0),
              TotalDeleted = 0, Completed = True, Reason = ''all categories processed''\<rparr>
   \<and> (\<exists>st. clean_loop flaky_estimate_provider ''me'' 10
              [''CATEGORY_SOCIAL'', ''CATEGORY_UPDATES''] initial_state []
            = (Inr st, [ThreadsList ''me'' ''CATEGORY_SOCIAL'' 10 [],
                        ThreadsList ''me'' ''CATEGORY_SOCIAL'' 1 [],
                        ThreadsList ''me'' ''CATEGORY_UPDATES'' 10 [],
                        ThreadsList ''me'' ''CATEGORY_UPDATES'' 1 []])
          \<and> map category (reports st) = [''CATEGORY_SOCIAL'', ''CATEGORY_UPDATES'']
          \<and> list_all (\<lambda>r. deleted r < 10 \<and> \<not> found_remaining (checked r)) (reports st)
          \<and> reason st = ''all categories processed'')"
proof -
  have run: "CleanCategories flaky_estimate_provider ''me''
               [''CATEGORY_SOCIAL'', ''CATEGORY_UPDATES''] 10 []
     = (Inr \<lparr>PerCategoryDeleted
               = Map.empty(''CATEGORY_SOCIAL'' \<mapsto> 0, ''CATEGORY_UPDATES'' \<mapsto> 0),
             TotalDeleted = 0, Completed = True, Reason = ''all categories processed''\<rparr>,
        [ThreadsList ''me'' ''CATEGORY_SOCIAL'' 10 [],
         ThreadsList ''me'' ''CATEGORY_SOCIAL'' 1 [],
         ThreadsList ''me'' ''CATEGORY_UPDATES'' 10 [],
         ThreadsList ''me'' ''CATEGORY_UPDATES'' 1 []])"
    by (simp add: run_simps flaky_estimate_provider_def)
  from C2_completed_iff[OF run] show ?thesis
    by (auto simp: list_all_iff summary_def)
qed

text \<open>
  C2 as stated fails where an estimate check did not find zero remaining items and the
  summary is complete all the same. In this run the estimate call of the social category
  fails (the source ignores the error) and the estimate of the updates category is \<open>-1\<close>;
  neither category reaches the cap of 10, and \<open>Completed\<close> is true.
\<close>

theorem C2_unchecked_estimate_counterexample:
  "clean_loop flaky_estimate_provider ''me'' 10 [''CATEGORY_SOCIAL'', ''CATEGORY_UPDATES'']
     initial_state []
   = (Inr \<lparr>result = Map.empty(''CATEGORY_SOCIAL'' \<mapsto> 0, ''CATEGORY_UPDATES'' \<mapsto> 0),
           total = 0, completed = True, reason = ''all categories processed'',
           reports =
             [Report ''CATEGORY_SOCIAL'' 0
                (Estimated 0 (Some (Error ''Error 503: backend unavailable''))),
              Report ''CATEGORY_UPDATES'' 0 (Estimated (- 1) None)]\<rparr>,
      [ThreadsList ''me'' ''CATEGORY_SOCIAL'' 10 [],
       ThreadsList ''me'' ''CATEGORY_SOCIAL'' 1 [],
       ThreadsList ''me'' ''CATEGORY_UPDATES'' 10 [],
       ThreadsList ''me'' ''CATEGORY_UPDATES'' 1 []])
   \<and> fst (CleanCategories flaky_estimate_provider ''me''
             [''CATEGORY_SOCIAL'', ''CATEGORY_UPDATES''] 10 [])
     = Inr \<lparr>PerCategoryDeleted
              = Map.empty(''CATEGORY_SOCIAL'' \<mapsto> 0, ''CATEGORY_UPDATES'' \<mapsto> 0),
            TotalDeleted = 0, Completed = True, Reason = ''all categories processed''\<rparr>"
  by (simp add: run_simps flaky_estimate_provider_def)

text \<open>
  C5, as amended. The reason of the returned summary is the one written by the last
  category, in processing order, that reached the cap or whose estimate found remaining
  emails. So a later category that reaches the cap does overwrite the "remaining emails"
  reason of an earlier one, and the other way round.
\<close>

theorem C5_last_write_wins:
  assumes "CleanCategories p u cs m h = (Inr s, h')"
  shows "\<exists>st. clean_loop p u m cs initial_state h = (Inr st, h') \<and> s = summary st
           \<and> map category (reports st) = cs
           \<and> (\<forall>rs1 r rs2. reports st = rs1 @ r # rs2 \<and> tripped m r
                  \<and> (\<forall>r'\<in>set rs2. \<not> tripped m r')
                \<longrightarrow> Reason s =
                     (if m \<le> deleted r
                      then ''max per category reached; more emails may remain''
                      else ''remaining emails detected in one or more categories''))"
proof -
  from assms obtain st where
    l: "clean_loop p u m cs initial_state h = (Inr st, h')" and s: "s = summary st"
    unfolding CleanCategories_Inr by blast
  from clean_loop_reports[OF l] have c: "map category (reports st) = cs"
    by (auto simp: initial_state_def)
  have "Reason s = (if m \<le> deleted r
                    then ''max per category reached; more emails may remain''
                    else ''remaining emails detected in one or more categories'')"
    if "reports st = rs1 @ r # rs2" "tripped m r" "\<forall>r'\<in>set rs2. \<not> tripped m r'"
    for rs1 r rs2
  proof -
    have "reports st = reports initial_state @ rs1 @ r # rs2"
      using that(1) by (simp add: initial_state_def)
    from clean_loop_last_tripped[OF l this that(2,3)] s show ?thesis
      by (simp add: summary_def)
  qed
  with l s c show ?thesis
    by blast
qed

text \<open>
  The social category estimates five threads left, then the promotions category reaches
  the cap of 1 and is the last to trip: the reason is the one of the cap.
\<close>

theorem C5_last_write_wins_witness:
  "tripped 1 (Report ''CATEGORY_PROMOTIONS'' 1 CapReached)
   \<and> list_all (\<lambda>r. \<not> tripped 1 r) []
   \<and> Reason \<lparr>PerCategoryDeleted
               = Map.empty(''CATEGORY_SOCIAL'' \<mapsto> 0, ''CATEGORY_PROMOTIONS'' \<mapsto> 1),
             TotalDeleted = 1, Completed = False,
             Reason = ''max per category reached; more emails may remain''\<rparr>
     = ''max per category reached; more emails may remain''
   \<and> reports (projr (fst (clean_loop social_left_provider ''me'' 1
                 [''CATEGORY_SOCIAL'', ''CATEGORY_PROMOTIONS''] initial_state [])))
     = [Report ''CATEGORY_SOCIAL'' 0 (Estimated 5 None)]
       @ Report ''CATEGORY_PROMOTIONS'' 1 CapReached # []"
proof -
  have run: "CleanCategories social_left_provider ''me''
               [''CATEGORY_SOCIAL'', ''CATEGORY_PROMOTIONS''] 1 []
     = (Inr \<lparr>PerCategoryDeleted
               = Map.empty(''CATEGORY_SOCIAL'' \<mapsto> 0, ''CATEGORY_PROMOTIONS'' \<mapsto> 1),
             TotalDeleted = 1, Completed = False,
             Reason = ''max per category reached; more emails may remain''\<rparr>,
        [ThreadsList ''me'' ''CATEGORY_SOCIAL'' 1 [],
         ThreadsList ''me'' ''CATEGORY_SOCIAL'' 1 [],
         ThreadsList ''me'' ''CATEGORY_PROMOTIONS'' 1 [],
         ThreadsModify ''me'' ''t1'' [''TRASH''] [''INBOX'']])"
    by (simp add: run_simps social_left_provider_def)
  have reps: "reports (projr (fst (clean_loop social_left_provider ''me'' 1
                 [''CATEGORY_SOCIAL'', ''CATEGORY_PROMOTIONS''] initial_state [])))
     = [Report ''CATEGORY_SOCIAL'' 0 (Estimated 5 None)]
       @ Report ''CATEGORY_PROMOTIONS'' 1 CapReached # []"
    by (simp add: run_simps social_left_provider_def)
  have t: "tripped 1 (Report ''CATEGORY_PROMOTIONS'' 1 CapReached)"
    by (simp add: tripped_def)
  from C5_last_write_wins[OF run] reps t show ?thesis
    by simp
qed

text \<open>
  C5 as stated fails: the social category lists nothing and its estimate finds five
  threads left, which writes the "remaining emails" reason (second conjunct); then the
  promotions category lists one thread under a cap of 1, and the returned reason is the
  one of the cap.
\<close>

theorem C5_cap_overwrites_counterexample:
  "clean_loop social_left_provider ''me'' 1 [''CATEGORY_SOCIAL'', ''CATEGORY_PROMOTIONS'']
     initial_state []
   = (Inr \<lparr>result = Map.empty(''CATEGORY_SOCIAL'' \<mapsto> 0, ''CATEGORY_PROMOTIONS'' \<mapsto> 1),
           total = 1, completed = False,
           reason = ''max per category reached; more emails may remain'',
           reports =
             [Report ''CATEGORY_SOCIAL'' 0 (Estimated 5 None),
              Report ''CATEGORY_PROMOTIONS'' 1 CapReached]\<rparr>,
      [ThreadsList ''me'' ''CATEGORY_SOCIAL'' 1 [],
       ThreadsList ''me'' ''CATEGORY_SOCIAL'' 1 [],
       ThreadsList ''me'' ''CATEGORY_PROMOTIONS'' 1 [],
       ThreadsModify ''me'' ''t1'' [''TRASH''] [''INBOX'']])
   \<and> fst (clean_loop social_left_provider ''me'' 1 [''CATEGORY_SOCIAL''] initial_state [])
     = Inr \<lparr>result = Map.empty(''CATEGORY_SOCIAL'' \<mapsto> 0),
            total = 0, completed = False,
            reason = ''remaining emails detected in one or more categories'',
            reports = [Report ''CATEGORY_SOCIAL'' 0 (Estimated 5 None)]\<rparr>
   \<and> fst (CleanCategories social_left_provider ''me''
             [''CATEGORY_SOCIAL'', ''CATEGORY_PROMOTIONS''] 1 [])
     = Inr \<lparr>PerCategoryDeleted
              = Map.empty(''CATEGORY_SOCIAL'' \<mapsto> 0, ''CATEGORY_PROMOTIONS'' \<mapsto> 1),
            TotalDeleted = 1, Completed = False,
            Reason = ''max per category reached; more emails may remain''\<rparr>"
  by (simp add: run_simps social_left_provider_def)

section \<open>Remote calls and failures\<close>

lemma no_failure_between_iff:
  "no_failure_between p hist a b \<longleftrightarrow> (\<forall>j. a \<le> j \<and> j < b \<longrightarrow> \<not> call_failed p hist j)"
  by (auto simp: no_failure_between_def list_all_iff)

lemma call_failed_extend:
  assumes "take (length h1) h2 = h1" and "j < length h1"
  shows "call_failed p h2 j = call_failed p h1 j"
proof -
  have "h2 ! j = h1 ! j"
    using assms by (metis nth_take)
  moreover have "take j h2 = take j h1"
    using assms by (metis less_imp_le_nat min.absorb1 take_take)
  ultimately show ?thesis
    by (simp add: call_failed_def split: call.splits)
qed

lemma no_failure_between_extend:
  assumes "take (length h1) h2 = h1" and "b \<le> length h1"
  shows "no_failure_between p h2 a b = no_failure_between p h1 a b"
  using call_failed_extend[OF assms(1)] assms(2)
  by (auto simp: no_failure_between_iff)

lemma no_failure_between_trans:
  "no_failure_between p hist a b \<Longrightarrow> no_failure_between p hist b c \<Longrightarrow>
   no_failure_between p hist a c"
  by (auto simp: no_failure_between_iff) (metis not_le_imp_less)

lemma take_snoc_prefix:
  assumes "take (length (h @ [c])) h' = h @ [c]"
  shows "take (length h) h' = h" and "h' ! length h = c" and "length h < length h'"
proof -
  obtain hs where hs: "h' = (h @ [c]) @ hs"
    using assms by (metis append_take_drop_id)
  show "take (length h) h' = h" "h' ! length h = c" "length h < length h'"
    using hs by (simp_all add: nth_append)
qed

lemma call_failed_snoc:
  "call_failed p (h @ [c]) (length h) =
     (case c of
        ThreadsList userID label n tok \<Rightarrow> isl (list_do p h userID label n tok)
      | ThreadsModify userID tid add remove \<Rightarrow> isl (modify_do p h userID tid add remove)
      | ThreadsDelete userID tid \<Rightarrow> delete_do p h userID tid \<noteq> None)"
  by (simp add: call_failed_def split: call.splits)

text \<open>A segment of one call.\<close>

lemma segment_one:
  "take (length h) (h @ [c]) = h \<and> length h < length (h @ [c])
   \<and> no_failure_between p (h @ [c]) (length h) (length (h @ [c]) - 1)"
  by (simp add: no_failure_between_def)

text \<open>A successful call followed by a segment.\<close>

lemma segment_step:
  assumes t: "take (length (h @ [c])) h' = h @ [c]"
    and ok: "\<not> call_failed p (h @ [c]) (length h)"
    and rest: "no_failure_between p h' (length (h @ [c])) b"
  shows "no_failure_between p h' (length h) b"
proof -
  have "call_failed p h' (length h) = call_failed p (h @ [c]) (length h)"
    using call_failed_extend[OF t, of "length h"] by simp
  with ok have "\<not> call_failed p h' (length h)"
    by simp
  then have "no_failure_between p h' (length h) (length (h @ [c]))"
    by (auto simp: no_failure_between_iff less_Suc_eq_le)
  then show ?thesis
    using rest by (rule no_failure_between_trans)
qed

lemma list_pages_failures:
  "list_pages p u label wrap mx allThreads tok pc totalFetched h = (r, h') \<Longrightarrow>
   take (length h) h' = h \<and> length h < length h'
   \<and> no_failure_between p h' (length h) (length h' - 1)
   \<and> (call_failed p h' (length h' - 1) \<longleftrightarrow> isl r)"
proof (induction p u label wrap mx allThreads tok pc totalFetched h arbitrary: r h'
       rule: list_pages.induct)
  case (1 p u label wrap mx allThreads tok pc totalFetched h)
  let ?c = "ThreadsList u label (pageSize mx totalFetched) tok"
  show ?case
  proof (cases "list_do p h u label (pageSize mx totalFetched) tok")
    case (Inl err)
    with "1.prems" have "h' = h @ [?c]" "isl r"
      by (auto simp: list_pages_Inl)
    with Inl segment_one[of h ?c p] show ?thesis
      by (simp add: call_failed_snoc)
  next
    case (Inr res)
    show ?thesis
    proof (cases "NextPageToken res = [] \<or> mx \<le> totalFetched + int (length (Threads res))
                  \<or> length (Threads res) = 0")
      case True
      with Inr "1.prems" have "h' = h @ [?c]" "\<not> isl r"
        by (auto simp: list_pages_stop)
      with Inr segment_one[of h ?c p] show ?thesis
        by (simp add: call_failed_snoc)
    next
      case False
      with Inr "1.prems" have rec:
        "list_pages p u label wrap mx (allThreads @ Threads res) (NextPageToken res) (pc + 1)
           (totalFetched + int (length (Threads res))) (h @ [?c]) = (r, h')"
        using list_pages_continue[OF Inr False] by simp
      from "1.IH"[OF Inr False rec] have
        t: "take (length (h @ [?c])) h' = h @ [?c]" and
        l: "length (h @ [?c]) < length h'" and
        n: "no_failure_between p h' (length (h @ [?c])) (length h' - 1)" and
        f: "call_failed p h' (length h' - 1) \<longleftrightarrow> isl r"
        by blast+
      have ok: "\<not> call_failed p (h @ [?c]) (length h)"
        using Inr by (simp add: call_failed_snoc)
      from take_snoc_prefix[OF t] segment_step[OF t ok n] f show ?thesis
        by simp
    qed
  qed
qed

lemma trash_each_calls:
  "trash_each p u ids h = (r, h') \<Longrightarrow>
   (\<exists>k \<le> length ids. h' = h @ removal_calls u ''CATEGORY'' (take k ids)
       \<and> (r = None \<longrightarrow> k = length ids))
   \<and> (r = None \<longrightarrow> no_failure_between p h' (length h) (length h'))
   \<and> (r \<noteq> None \<longrightarrow> aborts_at_first_failure p h h')"
proof (induction ids arbitrary: h r h')
  case Nil
  then show ?case
    by (auto simp: removal_calls_def no_failure_between_def)
next
  case (Cons tid tids)
  let ?c = "ThreadsModify u tid [''TRASH''] [''INBOX'']"
  show ?case
  proof (cases "modify_do p h u tid [''TRASH''] [''INBOX'']")
    case (Inl err)
    with Cons.prems have h': "h' = h @ [?c]" and r: "r \<noteq> None"
      by auto
    have "h' = h @ removal_calls u ''CATEGORY'' (take 1 (tid # tids))"
      using h' by (simp add: removal_calls_def)
    moreover have "aborts_at_first_failure p h h'"
      using h' Inl segment_one[of h ?c p]
      by (simp add: aborts_at_first_failure_def call_failed_snoc)
    ultimately show ?thesis
      using r by (intro conjI exI[of _ 1]) auto
  next
    case (Inr response)
    with Cons.prems have rec: "trash_each p u tids (h @ [?c]) = (r, h')"
      by simp
    from Cons.IH[OF rec] obtain k where k: "k \<le> length tids"
      "h' = (h @ [?c]) @ removal_calls u ''CATEGORY'' (take k tids)"
      "r = None \<longrightarrow> k = length tids" and
      n: "r = None \<longrightarrow> no_failure_between p h' (length (h @ [?c])) (length h')" and
      a: "r \<noteq> None \<longrightarrow> aborts_at_first_failure p (h @ [?c]) h'"
      by blast
    have t: "take (length (h @ [?c])) h' = h @ [?c]"
      using k(2) by simp
    have ok: "\<not> call_failed p (h @ [?c]) (length h)"
      using Inr by (simp add: call_failed_snoc)
    have "h' = h @ removal_calls u ''CATEGORY'' (take (Suc k) (tid # tids))"
      using k(2) by (simp add: removal_calls_def)
    moreover have "r = None \<longrightarrow> no_failure_between p h' (length h) (length h')"
      using n segment_step[OF t ok] by blast
    moreover have "r \<noteq> None \<longrightarrow> aborts_at_first_failure p h h'"
      using a segment_step[OF t ok] take_snoc_prefix[OF t]
      by (auto simp: aborts_at_first_failure_def)
    ultimately show ?thesis
      using k(1,3) by (intro conjI exI[of _ "Suc k"]) auto
  qed
qed

lemma delete_each_calls:
  "delete_each p u ids h = (r, h') \<Longrightarrow>
   (\<exists>k \<le> length ids. h' = h @ removal_calls u ''TRASH'' (take k ids)
       \<and> (r = None \<longrightarrow> k = length ids))
   \<and> (r = None \<longrightarrow> no_failure_between p h' (length h) (length h'))
   \<and> (r \<noteq> None \<longrightarrow> aborts_at_first_failure p h h')"
proof (induction ids arbitrary: h r h')
  case Nil
  then show ?case
    by (auto simp: removal_calls_def no_failure_between_def)
next
  case (Cons tid tids)
  let ?c = "ThreadsDelete u tid"
  show ?case
  proof (cases "delete_do p h u tid")
    case (Some err)
    with Cons.prems have h': "h' = h @ [?c]" and r: "r \<noteq> None"
      by auto
    have "h' = h @ removal_calls u ''TRASH'' (take 1 (tid # tids))"
      using h' by (simp add: removal_calls_def)
    moreover have "aborts_at_first_failure p h h'"
      using h' Some segment_one[of h ?c p]
      by (simp add: aborts_at_first_failure_def call_failed_snoc)
    ultimately show ?thesis
      using r by (intro conjI exI[of _ 1]) auto
  next
    case None
    with Cons.prems have rec: "delete_each p u tids (h @ [?c]) = (r, h')"
      by simp
    from Cons.IH[OF rec] obtain k where k: "k \<le> length tids"
      "h' = (h @ [?c]) @ removal_calls u ''TRASH'' (take k tids)"
      "r = None \<longrightarrow> k = length tids" and
      n: "r = None \<longrightarrow> no_failure_between p h' (length (h @ [?c])) (length h')" and
      a: "r \<noteq> None \<longrightarrow> aborts_at_first_failure p (h @ [?c]) h'"
      by blast
    have t: "take (length (h @ [?c])) h' = h @ [?c]"
      using k(2) by simp
    have ok: "\<not> call_failed p (h @ [?c]) (length h)"
      using None by (simp add: call_failed_snoc)
    have "h' = h @ removal_calls u ''TRASH'' (take (Suc k) (tid # tids))"
      using k(2) by (simp add: removal_calls_def)
    moreover have "r = None \<longrightarrow> no_failure_between p h' (length h) (length h')"
      using n segment_step[OF t ok] by blast
    moreover have "r \<noteq> None \<longrightarrow> aborts_at_first_failure p h h'"
      using a segment_step[OF t ok] take_snoc_prefix[OF t]
      by (auto simp: aborts_at_first_failure_def)
    ultimately show ?thesis
      using k(1,3) by (intro conjI exI[of _ "Suc k"]) auto
  qed
qed

lemma removal_calls_other:
  "label \<noteq> ''TRASH'' \<Longrightarrow> removal_calls u label ids = removal_calls u ''CATEGORY'' ids"
  by (simp add: removal_calls_def)

lemma remove_threads_calls:
  assumes "remove_threads p u label ids h = (r, h')"
  shows "(\<exists>k \<le> length ids. h' = h @ removal_calls u label (take k ids)
             \<and> (r = None \<longrightarrow> k = length ids))
         \<and> (r = None \<longrightarrow> no_failure_between p h' (length h) (length h'))
         \<and> (r \<noteq> None \<longrightarrow> aborts_at_first_failure p h h')"
proof (cases "ids = []")
  case True
  with assms have "r = None" "h' = h"
    by (auto simp: remove_threads_def BatchTrashThreads_def BatchDeleteThreadsPermanently_def
             split: if_splits)
  with True show ?thesis
    by (simp add: removal_calls_def no_failure_between_def)
next
  case False
  show ?thesis
  proof (cases "label = ''TRASH''")
    case True
    with False assms have "delete_each p u ids h = (r, h')"
      by (simp add: remove_threads_def BatchDeleteThreadsPermanently_def)
    from delete_each_calls[OF this] True show ?thesis
      by simp
  next
    case other: False
    with False assms have "trash_each p u ids h = (r, h')"
      by (simp add: remove_threads_def BatchTrashThreads_def)
    from trash_each_calls[OF this] removal_calls_other[OF other] show ?thesis
      by simp
  qed
qed

lemma list_threads_pages:
  "list_threads p u label m h
     = list_pages p u label
         (if label = ''TRASH'' then trash_page_error else category_page_error label)
         m [] [] 0 0 h"
  by (simp add: list_threads_def ListTrashThreads_def ListCategoryThreads_def)

lemma list_threads_calls:
  assumes "list_threads p u label m h = (r, h')"
  shows "take (length h) h' = h \<and> length h < length h'
         \<and> no_failure_between p h' (length h) (length h' - 1)
         \<and> (call_failed p h' (length h' - 1) \<longleftrightarrow> isl r)
         \<and> (\<forall>c\<in>set (drop (length h) h'). \<exists>n tok. c = ThreadsList u label n tok)"
proof -
  let ?wrap = "if label = ''TRASH'' then trash_page_error else category_page_error label"
  have run: "list_pages p u label ?wrap m [] [] 0 0 h = (r, h')"
    using assms by (simp only: list_threads_pages)
  have "\<exists>n tok. c = ThreadsList u label n tok" if "c \<in> set (drop (length h) h')" for c
  proof -
    from that obtain k where "k < length h' - length h" "c = h' ! (length h + k)"
      by (auto simp: in_set_conv_nth)
    with list_pages_requests[OF run] show ?thesis
      by blast
  qed
  with list_pages_failures[OF run] show ?thesis
    by blast
qed

lemma estimate_threads_calls:
  "estimate_threads p u label h = (r, h') \<Longrightarrow> h' = h @ [ThreadsList u label 1 []]"
  by (auto simp: estimate_threads_def EstimateTrashThreads_def EstimateCategoryThreads_def
           split: if_splits sum.splits)

lemma clean_category_fails:
  assumes "list_threads p u c m h = (Inl e, hf)
           \<or> (\<exists>ths h1. list_threads p u c m h = (Inr ths, h1)
                 \<and> remove_threads p u c (map Thread_Id ths) h1 = (Some e, hf))"
  shows "clean_category p u m c st h = (Inl e, hf)"
  using assms by (auto simp: clean_category_def)

lemma clean_category_aborts:
  assumes "list_threads p u c m h = (Inl e, hf)
           \<or> (\<exists>ths h1. list_threads p u c m h = (Inr ths, h1)
                 \<and> remove_threads p u c (map Thread_Id ths) h1 = (Some e, hf))"
  shows "aborts_at_first_failure p h hf"
  using assms
proof
  assume "list_threads p u c m h = (Inl e, hf)"
  from list_threads_calls[OF this] show ?thesis
    by (simp add: aborts_at_first_failure_def)
next
  assume "\<exists>ths h1. list_threads p u c m h = (Inr ths, h1)
            \<and> remove_threads p u c (map Thread_Id ths) h1 = (Some e, hf)"
  then obtain ths h1 where l: "list_threads p u c m h = (Inr ths, h1)"
    and r: "remove_threads p u c (map Thread_Id ths) h1 = (Some e, hf)"
    by blast
  from list_threads_calls[OF l] have
    t1: "take (length h) h1 = h" and l1: "length h < length h1" and
    n1: "no_failure_between p h1 (length h) (length h1 - 1)" and
    f1: "\<not> call_failed p h1 (length h1 - 1)"
    by simp_all
  from remove_threads_calls[OF r] have a: "aborts_at_first_failure p h1 hf"
    by simp
  then have t2: "take (length h1) hf = h1" and l2: "length h1 < length hf" and
    n2: "no_failure_between p hf (length h1) (length hf - 1)" and
    f2: "call_failed p hf (length hf - 1)"
    by (simp_all add: aborts_at_first_failure_def)
  have "\<not> call_failed p h1 j" if "length h \<le> j" "j < length h1" for j
  proof (cases "j = length h1 - 1")
    case True
    with f1 show ?thesis
      by simp
  next
    case False
    with that have "j < length h1 - 1"
      by simp
    with n1 that(1) show ?thesis
      by (simp add: no_failure_between_iff)
  qed
  then have "no_failure_between p h1 (length h) (length h1)"
    by (simp add: no_failure_between_iff)
  then have "no_failure_between p hf (length h) (length h1)"
    using no_failure_between_extend[OF t2, of "length h1"] by simp
  then have "no_failure_between p hf (length h) (length hf - 1)"
    using n2 by (rule no_failure_between_trans)
  moreover have "take (length h) hf = h"
  proof -
    have "take (length h) (take (length h1) hf) = take (length h) hf"
      using l1 by (simp add: min_def)
    with t1 t2 show ?thesis
      by simp
  qed
  ultimately show ?thesis
    using l1 l2 f2 by (simp add: aborts_at_first_failure_def)
qed

lemma clean_category_estimate_failed:
  assumes "list_threads p u c m h = (Inr ths, h1)"
    and "remove_threads p u c (map Thread_Id ths) h1 = (None, h2)"
    and "\<not> m \<le> int (length ths)"
    and "estimate_threads p u c h2 = ((n, Some e), h3)"
  shows "clean_category p u m c st h
         = (Inr (st\<lparr>result := (result st)(c \<mapsto> int (length ths)),
                    total := total st + int (length ths),
                    reports := reports st
                               @ [Report c (int (length ths)) (Estimated n (Some e))]\<rparr>),
            h3)"
  using assms by (simp add: clean_category_def Let_def)

text \<open>
  C3, as amended. When the categories before \<open>c\<close> were processed and, for \<open>c\<close>, a listing
  page fails or the trashing or deleting of a thread fails, \<open>CleanCategories\<close> returns
  that error and no summary; the failed call is the last one made, every call of this
  category before it succeeded (nothing is retried), and no later category is touched.
  A failed estimate does not abort: the category is recorded, \<open>completed\<close> and \<open>reason\<close>
  keep their values, and the loop goes on.
\<close>

theorem C3_failure_aborts:
  "(clean_loop p u m pre initial_state h0 = (Inr st, h)
      \<and> (list_threads p u c m h = (Inl e, hf)
          \<or> (\<exists>ths h1. list_threads p u c m h = (Inr ths, h1)
                \<and> remove_threads p u c (map Thread_Id ths) h1 = (Some e, hf)))
    \<longrightarrow> CleanCategories p u (pre @ c # post) m h0 = (Inl e, hf)
        \<and> aborts_at_first_failure p h hf)
   \<and> (list_threads p u c' m hb = (Inr ths', hb1)
        \<and> remove_threads p u c' (map Thread_Id ths') hb1 = (None, hb2)
        \<and> \<not> m \<le> int (length ths')
        \<and> estimate_threads p u c' hb2 = ((n, Some e'), hb3)
      \<longrightarrow> clean_category p u m c' stb hb
          = (Inr (stb\<lparr>result := (result stb)(c' \<mapsto> int (length ths')),
                      total := total stb + int (length ths'),
                      reports := reports stb
                                 @ [Report c' (int (length ths')) (Estimated n (Some e'))]\<rparr>),
             hb3))"
proof (intro conjI impI)
  assume a: "clean_loop p u m pre initial_state h0 = (Inr st, h)
      \<and> (list_threads p u c m h = (Inl e, hf)
          \<or> (\<exists>ths h1. list_threads p u c m h = (Inr ths, h1)
                \<and> remove_threads p u c (map Thread_Id ths) h1 = (Some e, hf)))"
  then have f: "clean_category p u m c st h = (Inl e, hf)"
    using clean_category_fails[of p u c m h e hf st] by blast
  with a show "CleanCategories p u (pre @ c # post) m h0 = (Inl e, hf)"
    by (simp add: CleanCategories_def clean_loop_append)
  from a show "aborts_at_first_failure p h hf"
    using clean_category_aborts[of p u c m h e hf] by blast
next
  assume "list_threads p u c' m hb = (Inr ths', hb1)
        \<and> remove_threads p u c' (map Thread_Id ths') hb1 = (None, hb2)
        \<and> \<not> m \<le> int (length ths')
        \<and> estimate_threads p u c' hb2 = ((n, Some e'), hb3)"
  then show "clean_category p u m c' stb hb
          = (Inr (stb\<lparr>result := (result stb)(c' \<mapsto> int (length ths')),
                      total := total stb + int (length ths'),
                      reports := reports stb
                                 @ [Report c' (int (length ths')) (Estimated n (Some e'))]\<rparr>),
             hb3)"
    using clean_category_estimate_failed[of p u c' m hb ths' hb1 hb2 n e' hb3 stb] by blast
qed

lemma faulty_updates_loop:
  "clean_loop faulty_provider ''me'' 10 [''CATEGORY_UPDATES''] initial_state []
     = (Inr \<lparr>result = Map.empty(''CATEGORY_UPDATES'' \<mapsto> 1), total = 1, completed = True,
             reason = ''all categories processed'',
             reports = [Report ''CATEGORY_UPDATES'' 1
                          (Estimated 0 (Some (Error ''Error 503: backend unavailable'')))]\<rparr>,
        [ThreadsList ''me'' ''CATEGORY_UPDATES'' 10 [],
         ThreadsModify ''me'' ''u1'' [''TRASH''] [''INBOX''],
         ThreadsList ''me'' ''CATEGORY_UPDATES'' 1 []])"
  by (simp add: run_simps faulty_provider_def)

lemma faulty_social_list:
  "list_threads faulty_provider ''me'' ''CATEGORY_SOCIAL'' 10
     [ThreadsList ''me'' ''CATEGORY_UPDATES'' 10 [],
      ThreadsModify ''me'' ''u1'' [''TRASH''] [''INBOX''],
      ThreadsList ''me'' ''CATEGORY_UPDATES'' 1 []]
   = (Inr [Thread ''s1'', Thread ''s2''],
      [ThreadsList ''me'' ''CATEGORY_UPDATES'' 10 [],
       ThreadsModify ''me'' ''u1'' [''TRASH''] [''INBOX''],
       ThreadsList ''me'' ''CATEGORY_UPDATES'' 1 [],
       ThreadsList ''me'' ''CATEGORY_SOCIAL'' 10 []])"
  by (simp add: run_simps faulty_provider_def)

lemma faulty_social_remove:
  "remove_threads faulty_provider ''me'' ''CATEGORY_SOCIAL''
     (map Thread_Id [Thread ''s1'', Thread ''s2''])
     [ThreadsList ''me'' ''CATEGORY_UPDATES'' 10 [],
      ThreadsModify ''me'' ''u1'' [''TRASH''] [''INBOX''],
      ThreadsList ''me'' ''CATEGORY_UPDATES'' 1 [],
      ThreadsList ''me'' ''CATEGORY_SOCIAL'' 10 []]
   = (Some (Error ''failed to trash thread s2: Error 500: backend error''),
      [ThreadsList ''me'' ''CATEGORY_UPDATES'' 10 [],
       ThreadsModify ''me'' ''u1'' [''TRASH''] [''INBOX''],
       ThreadsList ''me'' ''CATEGORY_UPDATES'' 1 [],
       ThreadsList ''me'' ''CATEGORY_SOCIAL'' 10 [],
       ThreadsModify ''me'' ''s1'' [''TRASH''] [''INBOX''],
       ThreadsModify ''me'' ''s2'' [''TRASH''] [''INBOX'']])"
  by (simp add: run_simps faulty_provider_def)

lemma faulty_updates_steps:
  "list_threads faulty_provider ''me'' ''CATEGORY_UPDATES'' 10 []
     = (Inr [Thread ''u1''], [ThreadsList ''me'' ''CATEGORY_UPDATES'' 10 []])"
  "remove_threads faulty_provider ''me'' ''CATEGORY_UPDATES'' (map Thread_Id [Thread ''u1''])
     [ThreadsList ''me'' ''CATEGORY_UPDATES'' 10 []]
     = (None, [ThreadsList ''me'' ''CATEGORY_UPDATES'' 10 [],
               ThreadsModify ''me'' ''u1'' [''TRASH''] [''INBOX'']])"
  "estimate_threads faulty_provider ''me'' ''CATEGORY_UPDATES''
     [ThreadsList ''me'' ''CATEGORY_UPDATES'' 10 [],
      ThreadsModify ''me'' ''u1'' [''TRASH''] [''INBOX'']]
     = ((0, Some (Error ''Error 503: backend unavailable'')),
        [ThreadsList ''me'' ''CATEGORY_UPDATES'' 10 [],
         ThreadsModify ''me'' ''u1'' [''TRASH''] [''INBOX''],
         ThreadsList ''me'' ''CATEGORY_UPDATES'' 1 []])"
  by (simp_all add: run_simps faulty_provider_def)

text \<open>
  Three categories under a cap of 10. The estimate of the updates category fails and is
  ignored; in the social category the second modify fails, which ends the run with that
  error before the trash is touched.
\<close>

theorem C3_failure_aborts_witness:
  "CleanCategories faulty_provider ''me''
     [''CATEGORY_UPDATES'', ''CATEGORY_SOCIAL'', ''TRASH''] 10 []
   = (Inl (Error ''failed to trash thread s2: Error 500: backend error''),
      [ThreadsList ''me'' ''CATEGORY_UPDATES'' 10 [],
       ThreadsModify ''me'' ''u1'' [''TRASH''] [''INBOX''],
       ThreadsList ''me'' ''CATEGORY_UPDATES'' 1 [],
       ThreadsList ''me'' ''CATEGORY_SOCIAL'' 10 [],
       ThreadsModify ''me'' ''s1'' [''TRASH''] [''INBOX''],
       ThreadsModify ''me'' ''s2'' [''TRASH''] [''INBOX'']])
   \<and> aborts_at_first_failure faulty_provider
       [ThreadsList ''me'' ''CATEGORY_UPDATES'' 10 [],
        ThreadsModify ''me'' ''u1'' [''TRASH''] [''INBOX''],
        ThreadsList ''me'' ''CATEGORY_UPDATES'' 1 []]
       [ThreadsList ''me'' ''CATEGORY_UPDATES'' 10 [],
        ThreadsModify ''me'' ''u1'' [''TRASH''] [''INBOX''],
        ThreadsList ''me'' ''CATEGORY_UPDATES'' 1 [],
        ThreadsList ''me'' ''CATEGORY_SOCIAL'' 10 [],
        ThreadsModify ''me'' ''s1'' [''TRASH''] [''INBOX''],
        ThreadsModify ''me'' ''s2'' [''TRASH''] [''INBOX'']]
   \<and> clean_category faulty_provider ''me'' 10 ''CATEGORY_UPDATES'' initial_state []
     = (Inr \<lparr>result = Map.empty(''CATEGORY_UPDATES'' \<mapsto> 1), total = 1, completed = True,
             reason = ''all categories processed'',
             reports = [Report ''CATEGORY_UPDATES'' 1
                          (Estimated 0 (Some (Error ''Error 503: backend unavailable'')))]\<rparr>,
        [ThreadsList ''me'' ''CATEGORY_UPDATES'' 10 [],
         ThreadsModify ''me'' ''u1'' [''TRASH''] [''INBOX''],
         ThreadsList ''me'' ''CATEGORY_UPDATES'' 1 []])"
proof -
  let ?hU = "[ThreadsList ''me'' ''CATEGORY_UPDATES'' 10 [],
              ThreadsModify ''me'' ''u1'' [''TRASH''] [''INBOX''],
              ThreadsList ''me'' ''CATEGORY_UPDATES'' 1 []]"
  let ?hf = "?hU @ [ThreadsList ''me'' ''CATEGORY_SOCIAL'' 10 [],
                    ThreadsModify ''me'' ''s1'' [''TRASH''] [''INBOX''],
                    ThreadsModify ''me'' ''s2'' [''TRASH''] [''INBOX'']]"
  let ?e = "Error ''failed to trash thread s2: Error 500: backend error''"
  have A: "clean_loop faulty_provider ''me'' 10 [''CATEGORY_UPDATES''] initial_state []
             = (Inr \<lparr>result = Map.empty(''CATEGORY_UPDATES'' \<mapsto> 1), total = 1,
                     completed = True, reason = ''all categories processed'',
                     reports = [Report ''CATEGORY_UPDATES'' 1
                        (Estimated 0 (Some (Error ''Error 503: backend unavailable'')))]\<rparr>, ?hU)
           \<and> (list_threads faulty_provider ''me'' ''CATEGORY_SOCIAL'' 10 ?hU = (Inl ?e, ?hf)
               \<or> (\<exists>ths h1. list_threads faulty_provider ''me'' ''CATEGORY_SOCIAL'' 10 ?hU
                               = (Inr ths, h1)
                     \<and> remove_threads faulty_provider ''me'' ''CATEGORY_SOCIAL''
                         (map Thread_Id ths) h1 = (Some ?e, ?hf)))"
    using faulty_updates_loop faulty_social_list faulty_social_remove by simp
  have B: "list_threads faulty_provider ''me'' ''CATEGORY_UPDATES'' 10 []
             = (Inr [Thread ''u1''], [ThreadsList ''me'' ''CATEGORY_UPDATES'' 10 []])
           \<and> remove_threads faulty_provider ''me'' ''CATEGORY_UPDATES''
               (map Thread_Id [Thread ''u1'']) [ThreadsList ''me'' ''CATEGORY_UPDATES'' 10 []]
             = (None, [ThreadsList ''me'' ''CATEGORY_UPDATES'' 10 [],
                       ThreadsModify ''me'' ''u1'' [''TRASH''] [''INBOX'']])
           \<and> \<not> 10 \<le> int (length [Thread ''u1''])
           \<and> estimate_threads faulty_provider ''me'' ''CATEGORY_UPDATES''
               [ThreadsList ''me'' ''CATEGORY_UPDATES'' 10 [],
                ThreadsModify ''me'' ''u1'' [''TRASH''] [''INBOX'']]
             = ((0, Some (Error ''Error 503: backend unavailable'')), ?hU)"
    using faulty_updates_steps by simp
  note C3 = C3_failure_aborts[where p = faulty_provider and u = "''me''" and m = 10
      and pre = "[''CATEGORY_UPDATES'']" and ?h0.0 = "[]" and h = ?hU
      and c = "''CATEGORY_SOCIAL''" and e = ?e and hf = ?hf and post = "[''TRASH'']"
      and c' = "''CATEGORY_UPDATES''" and hb = "[]" and ths' = "[Thread ''u1'']"
      and ?hb1.0 = "[ThreadsList ''me'' ''CATEGORY_UPDATES'' 10 []]"
      and ?hb2.0 = "[ThreadsList ''me'' ''CATEGORY_UPDATES'' 10 [],
                     ThreadsModify ''me'' ''u1'' [''TRASH''] [''INBOX'']]"
      and n = 0 and e' = "Error ''Error 503: backend unavailable''" and ?hb3.0 = ?hU
      and stb = initial_state]
  from C3 A B show ?thesis
    by (simp add: initial_state_def)
qed

text \<open>
  C3 as stated fails for the estimate: the estimate call of the updates category fails
  (third call of the history), and the run goes on to the trash and returns a summary.
\<close>

theorem C3_estimate_failure_counterexample:
  "CleanCategories faulty_provider ''me'' [''CATEGORY_UPDATES'', ''TRASH''] 10 []
   = (Inr \<lparr>PerCategoryDeleted = Map.empty(''CATEGORY_UPDATES'' \<mapsto> 1, ''TRASH'' \<mapsto> 2),
           TotalDeleted = 3, Completed = True, Reason = ''all categories processed''\<rparr>,
      [ThreadsList ''me'' ''CATEGORY_UPDATES'' 10 [],
       ThreadsModify ''me'' ''u1'' [''TRASH''] [''INBOX''],
       ThreadsList ''me'' ''CATEGORY_UPDATES'' 1 [],
       ThreadsList ''me'' ''TRASH'' 10 [],
       ThreadsDelete ''me'' ''s1'',
       ThreadsDelete ''me'' ''s2'',
       ThreadsList ''me'' ''TRASH'' 1 []])
   \<and> EstimateCategoryThreads faulty_provider ''me'' ''CATEGORY_UPDATES''
       [ThreadsList ''me'' ''CATEGORY_UPDATES'' 10 [],
        ThreadsModify ''me'' ''u1'' [''TRASH''] [''INBOX'']]
     = ((0, Some (Error ''Error 503: backend unavailable'')),
        [ThreadsList ''me'' ''CATEGORY_UPDATES'' 10 [],
         ThreadsModify ''me'' ''u1'' [''TRASH''] [''INBOX''],
         ThreadsList ''me'' ''CATEGORY_UPDATES'' 1 []])
   \<and> call_failed faulty_provider
       [ThreadsList ''me'' ''CATEGORY_UPDATES'' 10 [],
        ThreadsModify ''me'' ''u1'' [''TRASH''] [''INBOX''],
        ThreadsList ''me'' ''CATEGORY_UPDATES'' 1 [],
        ThreadsList ''me'' ''TRASH'' 10 [],
        ThreadsDelete ''me'' ''s1'',
        ThreadsDelete ''me'' ''s2'',
        ThreadsList ''me'' ''TRASH'' 1 []] 2"
  by (simp add: run_simps faulty_provider_def call_failed_def)

section \<open>Removal by label, and empty categories\<close>

lemma clean_category_Inr_calls:
  assumes "clean_category p u m label st h = (Inr st', h')"
  obtains ths h1 h2 where "list_threads p u label m h = (Inr ths, h1)"
    and "remove_threads p u label (map Thread_Id ths) h1 = (None, h2)"
    and "h' = h2 \<or> h' = h2 @ [ThreadsList u label 1 []]"
    and "result st' label = Some (int (length ths))"
    and "total st' = total st + int (length ths)"
proof -
  obtain r h1 where l: "list_threads p u label m h = (r, h1)"
    by (cases "list_threads p u label m h")
  with assms obtain ths where r: "r = Inr ths"
    by (cases r) (auto simp: clean_category_def)
  obtain x h2 where rm: "remove_threads p u label (map Thread_Id ths) h1 = (x, h2)"
    by (cases "remove_threads p u label (map Thread_Id ths) h1")
  with assms l r have x: "x = None"
    by (cases x) (auto simp: clean_category_def)
  have res: "result st' label = Some (int (length ths))"
    "total st' = total st + int (length ths)"
    using assms l r rm x
    by (auto simp: clean_category_def Let_def split: if_splits prod.splits)
  have "h' = h2 \<or> h' = h2 @ [ThreadsList u label 1 []]"
  proof (cases "m \<le> int (length ths)")
    case True
    with assms l r rm x show ?thesis
      by (simp add: clean_category_def Let_def)
  next
    case False
    obtain y h3 where e: "estimate_threads p u label h2 = (y, h3)"
      by (cases "estimate_threads p u label h2")
    with assms l r rm x False have "h' = h3"
      by (auto simp: clean_category_def Let_def split: if_splits prod.splits)
    with estimate_threads_calls[OF e] show ?thesis
      by simp
  qed
  with l r rm x res that show thesis
    by blast
qed

text \<open>
  C4. The calls of a processed category are its listing calls, then one call per listed
  thread, in order, then at most the estimate call. For the label \<open>TRASH\<close> the calls per
  thread are deletes; for every other label they are modifies that add \<open>TRASH\<close> and remove
  \<open>INBOX\<close>. The provider accepted every one of these calls, so each listed thread was
  deleted, or moved to the trash.
\<close>

theorem C4_removal_by_label:
  assumes "clean_category p u m label st h = (Inr st', h')"
  shows "\<exists>ths h1 h3. list_threads p u label m h = (Inr ths, h1)
           \<and> (\<forall>c\<in>set (drop (length h) h1). \<exists>n tok. c = ThreadsList u label n tok)
           \<and> h' = h1 @ (if label = ''TRASH''
                        then map (\<lambda>t. ThreadsDelete u (Thread_Id t)) ths
                        else map (\<lambda>t. ThreadsModify u (Thread_Id t) [''TRASH''] [''INBOX''])
                               ths)
                    @ h3
           \<and> (h3 = [] \<or> h3 = [ThreadsList u label 1 []])
           \<and> no_failure_between p h' (length h1) (length h1 + length ths)"
proof -
  from assms obtain ths h1 h2 where
    l: "list_threads p u label m h = (Inr ths, h1)" and
    r: "remove_threads p u label (map Thread_Id ths) h1 = (None, h2)" and
    h': "h' = h2 \<or> h' = h2 @ [ThreadsList u label 1 []]"
    by (rule clean_category_Inr_calls)
  from remove_threads_calls[OF r] have
    rc: "h2 = h1 @ removal_calls u label (map Thread_Id ths)" and
    nf: "no_failure_between p h2 (length h1) (length h2)"
    by auto
  from rc have h2: "h2 = h1 @ (if label = ''TRASH''
                        then map (\<lambda>t. ThreadsDelete u (Thread_Id t)) ths
                        else map (\<lambda>t. ThreadsModify u (Thread_Id t) [''TRASH''] [''INBOX''])
                               ths)"
    by (simp add: removal_calls_def comp_def)
  then have len: "length h2 = length h1 + length ths"
    by simp
  from h' have "take (length h2) h' = h2"
    by auto
  from no_failure_between_extend[OF this, of "length h2" p "length h1"] nf len
  have acc: "no_failure_between p h' (length h1) (length h1 + length ths)"
    by simp
  from list_threads_calls[OF l] have
    c: "\<forall>c\<in>set (drop (length h) h1). \<exists>n tok. c = ThreadsList u label n tok"
    by blast
  from h' show ?thesis
  proof
    assume "h' = h2"
    with l c h2 acc show ?thesis
      by (intro exI[of _ ths] exI[of _ h1] exI[of _ "[]"]) simp
  next
    assume "h' = h2 @ [ThreadsList u label 1 []]"
    with l c h2 acc show ?thesis
      by (intro exI[of _ ths] exI[of _ h1] exI[of _ "[ThreadsList u label 1 []]"]) simp
  qed
qed

lemma pair_trash_list:
  "list_threads pair_provider ''me'' ''TRASH'' 10 []
     = (Inr [Thread ''t1'', Thread ''t2''], [ThreadsList ''me'' ''TRASH'' 10 []])"
  by (simp add: run_simps pair_provider_def)

lemma pair_social_list:
  "list_threads pair_provider ''me'' ''CATEGORY_SOCIAL'' 10 []
     = (Inr [Thread ''t1'', Thread ''t2''], [ThreadsList ''me'' ''CATEGORY_SOCIAL'' 10 []])"
  by (simp add: run_simps pair_provider_def)

lemma pair_trash_run:
  "clean_category pair_provider ''me'' 10 ''TRASH'' initial_state []
     = (Inr \<lparr>result = Map.empty(''TRASH'' \<mapsto> 2), total = 2, completed = True,
             reason = ''all categories processed'',
             reports = [Report ''TRASH'' 2 (Estimated 0 None)]\<rparr>,
        [ThreadsList ''me'' ''TRASH'' 10 [], ThreadsDelete ''me'' ''t1'',
         ThreadsDelete ''me'' ''t2'', ThreadsList ''me'' ''TRASH'' 1 []])"
  by (simp add: run_simps pair_provider_def)

lemma pair_social_run:
  "clean_category pair_provider ''me'' 10 ''CATEGORY_SOCIAL'' initial_state []
     = (Inr \<lparr>result = Map.empty(''CATEGORY_SOCIAL'' \<mapsto> 2), total = 2, completed = True,
             reason = ''all categories processed'',
             reports = [Report ''CATEGORY_SOCIAL'' 2 (Estimated 0 None)]\<rparr>,
        [ThreadsList ''me'' ''CATEGORY_SOCIAL'' 10 [],
         ThreadsModify ''me'' ''t1'' [''TRASH''] [''INBOX''],
         ThreadsModify ''me'' ''t2'' [''TRASH''] [''INBOX''],
         ThreadsList ''me'' ''CATEGORY_SOCIAL'' 1 []])"
  by (simp add: run_simps pair_provider_def)

text \<open>
  The trash and the social category against the provider that always lists \<open>t1\<close> and
  \<open>t2\<close>: after the one listing call come two deletes, or two modifies, all accepted.
\<close>

theorem C4_removal_by_label_witness:
  "clean_category pair_provider ''me'' 10 ''TRASH'' initial_state []
     = (Inr \<lparr>result = Map.empty(''TRASH'' \<mapsto> 2), total = 2, completed = True,
             reason = ''all categories processed'',
             reports = [Report ''TRASH'' 2 (Estimated 0 None)]\<rparr>,
        [ThreadsList ''me'' ''TRASH'' 10 [], ThreadsDelete ''me'' ''t1'',
         ThreadsDelete ''me'' ''t2'', ThreadsList ''me'' ''TRASH'' 1 []])
   \<and> clean_category pair_provider ''me'' 10 ''CATEGORY_SOCIAL'' initial_state []
     = (Inr \<lparr>result = Map.empty(''CATEGORY_SOCIAL'' \<mapsto> 2), total = 2, completed = True,
             reason = ''all categories processed'',
             reports = [Report ''CATEGORY_SOCIAL'' 2 (Estimated 0 None)]\<rparr>,
        [ThreadsList ''me'' ''CATEGORY_SOCIAL'' 10 [],
         ThreadsModify ''me'' ''t1'' [''TRASH''] [''INBOX''],
         ThreadsModify ''me'' ''t2'' [''TRASH''] [''INBOX''],
         ThreadsList ''me'' ''CATEGORY_SOCIAL'' 1 []])
   \<and> list_threads pair_provider ''me'' ''TRASH'' 10 []
     = (Inr [Thread ''t1'', Thread ''t2''], [ThreadsList ''me'' ''TRASH'' 10 []])
   \<and> [ThreadsList ''me'' ''TRASH'' 10 [], ThreadsDelete ''me'' ''t1'',
       ThreadsDelete ''me'' ''t2'', ThreadsList ''me'' ''TRASH'' 1 []]
     = [ThreadsList ''me'' ''TRASH'' 10 []]
       @ map (\<lambda>t. ThreadsDelete ''me'' (Thread_Id t)) [Thread ''t1'', Thread ''t2'']
       @ [ThreadsList ''me'' ''TRASH'' 1 []]
   \<and> no_failure_between pair_provider
        [ThreadsList ''me'' ''TRASH'' 10 [], ThreadsDelete ''me'' ''t1'',
         ThreadsDelete ''me'' ''t2'', ThreadsList ''me'' ''TRASH'' 1 []]
        (length [ThreadsList ''me'' ''TRASH'' 10 []])
        (length [ThreadsList ''me'' ''TRASH'' 10 []] + length [Thread ''t1'', Thread ''t2''])
   \<and> list_threads pair_provider ''me'' ''CATEGORY_SOCIAL'' 10 []
     = (Inr [Thread ''t1'', Thread ''t2''], [ThreadsList ''me'' ''CATEGORY_SOCIAL'' 10 []])
   \<and> [ThreadsList ''me'' ''CATEGORY_SOCIAL'' 10 [],
       ThreadsModify ''me'' ''t1'' [''TRASH''] [''INBOX''],
       ThreadsModify ''me'' ''t2'' [''TRASH''] [''INBOX''],
       ThreadsList ''me'' ''CATEGORY_SOCIAL'' 1 []]
     = [ThreadsList ''me'' ''CATEGORY_SOCIAL'' 10 []]
       @ map (\<lambda>t. ThreadsModify ''me'' (Thread_Id t) [''TRASH''] [''INBOX''])
           [Thread ''t1'', Thread ''t2'']
       @ [ThreadsList ''me'' ''CATEGORY_SOCIAL'' 1 []]
   \<and> no_failure_between pair_provider
        [ThreadsList ''me'' ''CATEGORY_SOCIAL'' 10 [],
         ThreadsModify ''me'' ''t1'' [''TRASH''] [''INBOX''],
         ThreadsModify ''me'' ''t2'' [''TRASH''] [''INBOX''],
         ThreadsList ''me'' ''CATEGORY_SOCIAL'' 1 []]
        (length [ThreadsList ''me'' ''CATEGORY_SOCIAL'' 10 []])
        (length [ThreadsList ''me'' ''CATEGORY_SOCIAL'' 10 []]
         + length [Thread ''t1'', Thread ''t2''])"
proof -
  from C4_removal_by_label[OF pair_trash_run] pair_trash_list
  have t: "no_failure_between pair_provider
        [ThreadsList ''me'' ''TRASH'' 10 [], ThreadsDelete ''me'' ''t1'',
         ThreadsDelete ''me'' ''t2'', ThreadsList ''me'' ''TRASH'' 1 []]
        (length [ThreadsList ''me'' ''TRASH'' 10 []])
        (length [ThreadsList ''me'' ''TRASH'' 10 []] + length [Thread ''t1'', Thread ''t2''])"
    by auto
  from C4_removal_by_label[OF pair_social_run] pair_social_list
  have s: "no_failure_between pair_provider
        [ThreadsList ''me'' ''CATEGORY_SOCIAL'' 10 [],
         ThreadsModify ''me'' ''t1'' [''TRASH''] [''INBOX''],
         ThreadsModify ''me'' ''t2'' [''TRASH''] [''INBOX''],
         ThreadsList ''me'' ''CATEGORY_SOCIAL'' 1 []]
        (length [ThreadsList ''me'' ''CATEGORY_SOCIAL'' 10 []])
        (length [ThreadsList ''me'' ''CATEGORY_SOCIAL'' 10 []]
         + length [Thread ''t1'', Thread ''t2''])"
    by auto
  from t s pair_trash_run pair_social_run pair_trash_list pair_social_list show ?thesis
    by simp
qed

lemma clean_loop_result_other:
  "clean_loop p u m cs st h = (Inr st', h') \<Longrightarrow> c \<notin> set cs \<Longrightarrow> result st' c = result st c"
proof (induction cs arbitrary: st h)
  case Nil
  then show ?case by simp
next
  case (Cons x cs)
  from Cons.prems(1) obtain st1 h1 where
    1: "clean_category p u m x st h = (Inr st1, h1)" and
    2: "clean_loop p u m cs st1 h1 = (Inr st', h')"
    by (rule clean_loop_Cons_Inr)
  from clean_category_Inr[OF 1] obtain d where "result st1 = (result st)(x \<mapsto> d)"
    by blast
  with Cons.prems(2) have "result st1 c = result st c"
    by simp
  with Cons.IH[OF 2] Cons.prems(2) show ?case
    by simp
qed

lemma clean_category_nothing_listed:
  assumes "list_threads p u c m h = (Inr [], h1)"
  shows "\<exists>st' h'. clean_category p u m c st h = (Inr st', h') \<and> result st' c = Some 0
           \<and> total st' = total st \<and> (h' = h1 \<or> h' = h1 @ [ThreadsList u c 1 []])"
proof -
  have r: "remove_threads p u c (map Thread_Id []) h1 = (None, h1)"
    by (simp add: remove_threads_def BatchTrashThreads_def BatchDeleteThreadsPermanently_def)
  show ?thesis
  proof (cases "m \<le> 0")
    case True
    with assms r show ?thesis
      by (simp add: clean_category_def Let_def)
  next
    case False
    obtain n e h3 where e: "estimate_threads p u c h1 = ((n, e), h3)"
      by (cases "estimate_threads p u c h1") auto
    from estimate_threads_calls[OF e] have "h3 = h1 @ [ThreadsList u c 1 []]" .
    with assms r False e show ?thesis
      by (simp add: clean_category_def Let_def)
  qed
qed

text \<open>
  C10, as amended. Both batch operations return \<open>nil\<close> on an empty list and leave the
  history as it is. So a category whose listing returns no thread is processed without
  error and without a modify or delete call, and is recorded with the count 0 by its
  pass; the returned summary holds that 0 if the label is not requested again later in
  the request.
\<close>

theorem C10_empty_batch:
  "BatchTrashThreads p u [] h = (None, h)
   \<and> BatchDeleteThreadsPermanently p u [] h = (None, h)
   \<and> (list_threads p u c m h = (Inr [], h1) \<longrightarrow>
        (\<exists>st' h'. clean_category p u m c st h = (Inr st', h') \<and> result st' c = Some 0
            \<and> total st' = total st \<and> (h' = h1 \<or> h' = h1 @ [ThreadsList u c 1 []])))
   \<and> (clean_loop p u m pre initial_state h0 = (Inr st, h)
        \<and> list_threads p u c m h = (Inr [], h1) \<and> c \<notin> set post
        \<and> CleanCategories p u (pre @ c # post) m h0 = (Inr s, hf)
      \<longrightarrow> PerCategoryDeleted s c = Some 0)"
proof (intro conjI impI)
  show "BatchTrashThreads p u [] h = (None, h)"
    by (simp add: BatchTrashThreads_def)
  show "BatchDeleteThreadsPermanently p u [] h = (None, h)"
    by (simp add: BatchDeleteThreadsPermanently_def)
next
  assume "list_threads p u c m h = (Inr [], h1)"
  then show "\<exists>st' h'. clean_category p u m c st h = (Inr st', h') \<and> result st' c = Some 0
            \<and> total st' = total st \<and> (h' = h1 \<or> h' = h1 @ [ThreadsList u c 1 []])"
    by (rule clean_category_nothing_listed)
next
  assume a: "clean_loop p u m pre initial_state h0 = (Inr st, h)
        \<and> list_threads p u c m h = (Inr [], h1) \<and> c \<notin> set post
        \<and> CleanCategories p u (pre @ c # post) m h0 = (Inr s, hf)"
  then obtain st1 h' where 1: "clean_category p u m c st h = (Inr st1, h')"
    and 0: "result st1 c = Some 0"
    using clean_category_nothing_listed[of p u c m h h1 st] by blast
  from a obtain stf where f: "clean_loop p u m (pre @ c # post) initial_state h0 = (Inr stf, hf)"
    and s: "s = summary stf"
    unfolding CleanCategories_Inr by blast
  from f a 1 have "clean_loop p u m post st1 h' = (Inr stf, hf)"
    by (simp add: clean_loop_append)
  from clean_loop_result_other[OF this] a 0 have "result stf c = Some 0"
    by simp
  with s show "PerCategoryDeleted s c = Some 0"
    by (simp add: summary_def)
qed

lemma flaky_social_list:
  "list_threads flaky_estimate_provider ''me'' ''CATEGORY_SOCIAL'' 10 []
     = (Inr [], [ThreadsList ''me'' ''CATEGORY_SOCIAL'' 10 []])"
  by (simp add: run_simps flaky_estimate_provider_def)

lemma flaky_run:
  "CleanCategories flaky_estimate_provider ''me''
     ([] @ ''CATEGORY_SOCIAL'' # [''CATEGORY_UPDATES'']) 10 []
   = (Inr \<lparr>PerCategoryDeleted
             = Map.empty(''CATEGORY_SOCIAL'' \<mapsto> 0, ''CATEGORY_UPDATES'' \<mapsto> 0),
           TotalDeleted = 0, Completed = True, Reason = ''all categories processed''\<rparr>,
      [ThreadsList ''me'' ''CATEGORY_SOCIAL'' 10 [],
       ThreadsList ''me'' ''CATEGORY_SOCIAL'' 1 [],
       ThreadsList ''me'' ''CATEGORY_UPDATES'' 10 [],
       ThreadsList ''me'' ''CATEGORY_UPDATES'' 1 []])"
  by (simp add: run_simps flaky_estimate_provider_def)

text \<open>The social category is empty and is followed by the updates category.\<close>

theorem C10_empty_batch_witness:
  "list_threads flaky_estimate_provider ''me'' ''CATEGORY_SOCIAL'' 10 []
     = (Inr [], [ThreadsList ''me'' ''CATEGORY_SOCIAL'' 10 []])
   \<and> clean_category flaky_estimate_provider ''me'' 10 ''CATEGORY_SOCIAL'' initial_state []
     = (Inr \<lparr>result = Map.empty(''CATEGORY_SOCIAL'' \<mapsto> 0), total = 0, completed = True,
             reason = ''all categories processed'',
             reports = [Report ''CATEGORY_SOCIAL'' 0
                          (Estimated 0 (Some (Error ''Error 503: backend unavailable'')))]\<rparr>,
        [ThreadsList ''me'' ''CATEGORY_SOCIAL'' 10 []]
        @ [ThreadsList ''me'' ''CATEGORY_SOCIAL'' 1 []])
   \<and> ''CATEGORY_SOCIAL'' \<notin> set [''CATEGORY_UPDATES'']
   \<and> PerCategoryDeleted
        \<lparr>PerCategoryDeleted
           = Map.empty(''CATEGORY_SOCIAL'' \<mapsto> 0, ''CATEGORY_UPDATES'' \<mapsto> 0),
         TotalDeleted = 0, Completed = True, Reason = ''all categories processed''\<rparr>
        ''CATEGORY_SOCIAL'' = Some 0
   \<and> BatchTrashThreads flaky_estimate_provider ''me'' [] [] = (None, [])
   \<and> BatchDeleteThreadsPermanently flaky_estimate_provider ''me'' [] [] = (None, [])"
proof -
  have l: "clean_loop flaky_estimate_provider ''me'' 10 [] initial_state [] = (Inr initial_state, [])"
    by simp
  have n: "''CATEGORY_SOCIAL'' \<notin> set [''CATEGORY_UPDATES'']"
    by simp
  have c: "clean_category flaky_estimate_provider ''me'' 10 ''CATEGORY_SOCIAL'' initial_state []
     = (Inr \<lparr>result = Map.empty(''CATEGORY_SOCIAL'' \<mapsto> 0), total = 0, completed = True,
             reason = ''all categories processed'',
             reports = [Report ''CATEGORY_SOCIAL'' 0
                          (Estimated 0 (Some (Error ''Error 503: backend unavailable'')))]\<rparr>,
        [ThreadsList ''me'' ''CATEGORY_SOCIAL'' 10 []]
        @ [ThreadsList ''me'' ''CATEGORY_SOCIAL'' 1 []])"
    by (simp add: run_simps flaky_estimate_provider_def)
  from C10_empty_batch[where p = flaky_estimate_provider and u = "''me''" and h = "[]"
      and c = "''CATEGORY_SOCIAL''" and m = 10
      and ?h1.0 = "[ThreadsList ''me'' ''CATEGORY_SOCIAL'' 10 []]" and st = initial_state
      and pre = "[]" and ?h0.0 = "[]" and post = "[''CATEGORY_UPDATES'']"
      and s = "\<lparr>PerCategoryDeleted
                   = Map.empty(''CATEGORY_SOCIAL'' \<mapsto> 0, ''CATEGORY_UPDATES'' \<mapsto> 0),
                 TotalDeleted = 0, Completed = True, Reason = ''all categories processed''\<rparr>"
      and hf = "[ThreadsList ''me'' ''CATEGORY_SOCIAL'' 10 [],
                 ThreadsList ''me'' ''CATEGORY_SOCIAL'' 1 [],
                 ThreadsList ''me'' ''CATEGORY_UPDATES'' 10 [],
                 ThreadsList ''me'' ''CATEGORY_UPDATES'' 1 []]"]
    l n c flaky_social_list flaky_run
  show ?thesis
    by simp
qed

text \<open>
  C10 as stated fails when a label is requested twice: the first listing of the social
  category returns no thread (first conjunct), by the second pass the thread \<open>t1\<close> has
  arrived, and the summary records 1 for the category, not 0.
\<close>

theorem C10_relisted_label_counterexample:
  "list_threads late_arrival_provider ''me'' ''CATEGORY_SOCIAL'' 10 []
     = (Inr [], [ThreadsList ''me'' ''CATEGORY_SOCIAL'' 10 []])
   \<and> CleanCategories late_arrival_provider ''me''
       [''CATEGORY_SOCIAL'', ''CATEGORY_SOCIAL''] 10 []
     = (Inr \<lparr>PerCategoryDeleted = Map.empty(''CATEGORY_SOCIAL'' \<mapsto> 1), TotalDeleted = 1,
             Completed = True, Reason = ''all categories processed''\<rparr>,
        [ThreadsList ''me'' ''CATEGORY_SOCIAL'' 10 [],
         ThreadsList ''me'' ''CATEGORY_SOCIAL'' 1 [],
         ThreadsList ''me'' ''CATEGORY_SOCIAL'' 10 [],
         ThreadsModify ''me'' ''t1'' [''TRASH''] [''INBOX''],
         ThreadsList ''me'' ''CATEGORY_SOCIAL'' 1 []])"
  by (simp add: run_simps late_arrival_provider_def)

section \<open>The handler\<close>

lemma list_pages_first_call:
  assumes "list_pages p u label wrap mx allThreads tok pc totalFetched h = (r, h')"
  shows "\<exists>rest. h' = h @ ThreadsList u label (pageSize mx totalFetched) tok # rest"
proof -
  let ?c = "ThreadsList u label (pageSize mx totalFetched) tok"
  have ext: ?thesis if "take (length (h @ [?c])) h' = h @ [?c]"
  proof -
    from that have "h' = (h @ [?c]) @ drop (length (h @ [?c])) h'"
      by (metis append_take_drop_id)
    then show ?thesis
      by auto
  qed
  show ?thesis
  proof (cases "list_do p h u label (pageSize mx totalFetched) tok")
    case (Inl err)
    with assms show ?thesis
      by (auto simp: list_pages_Inl)
  next
    case (Inr res)
    show ?thesis
    proof (cases "NextPageToken res = [] \<or> mx \<le> totalFetched + int (length (Threads res))
                  \<or> length (Threads res) = 0")
      case True
      with Inr assms show ?thesis
        by (auto simp: list_pages_stop)
    next
      case False
      with assms have
        "list_pages p u label wrap mx (allThreads @ Threads res) (NextPageToken res) (pc + 1)
           (totalFetched + int (length (Threads res))) (h @ [?c]) = (r, h')"
        using list_pages_continue[OF Inr False] by simp
      from list_pages_requests[OF this] show ?thesis
        by (intro ext) blast
    qed
  qed
qed

lemma clean_category_first_call:
  assumes "clean_category p u m c st h = (r, h')"
  shows "\<exists>rest. h' = h @ ThreadsList u c (pageSize m 0) [] # rest"
proof -
  obtain x h1 where l: "list_threads p u c m h = (x, h1)"
    by (cases "list_threads p u c m h")
  then obtain r1 where h1: "h1 = h @ ThreadsList u c (pageSize m 0) [] # r1"
    using list_pages_first_call[of p u c _ m "[]" "[]" 0 0 h x h1]
    unfolding list_threads_pages by blast
  show ?thesis
  proof (cases x)
    case (Inl e)
    with assms l h1 show ?thesis
      by (auto simp: clean_category_def)
  next
    case (Inr ths)
    obtain y h2 where rm: "remove_threads p u c (map Thread_Id ths) h1 = (y, h2)"
      by (cases "remove_threads p u c (map Thread_Id ths) h1")
    from remove_threads_calls[OF rm] obtain r2 where h2: "h2 = h1 @ r2"
      by blast
    show ?thesis
    proof (cases y)
      case (Some e)
      with assms l Inr rm h1 h2 show ?thesis
        by (auto simp: clean_category_def)
    next
      case None
      show ?thesis
      proof (cases "m \<le> int (length ths)")
        case True
        with assms l Inr rm None h1 h2 show ?thesis
          by (auto simp: clean_category_def Let_def)
      next
        case False
        obtain z h3 where e: "estimate_threads p u c h2 = (z, h3)"
          by (cases "estimate_threads p u c h2")
        with assms l Inr rm None False have "h' = h3"
          by (auto simp: clean_category_def Let_def split: if_splits prod.splits)
        with estimate_threads_calls[OF e] h1 h2 show ?thesis
          by auto
      qed
    qed
  qed
qed

lemma clean_loop_grows:
  "clean_loop p u m cs st h = (r, h') \<Longrightarrow> \<exists>rest. h' = h @ rest"
proof (induction cs arbitrary: st h)
  case Nil
  then show ?case by simp
next
  case (Cons c cs)
  obtain x h1 where 1: "clean_category p u m c st h = (x, h1)"
    by (cases "clean_category p u m c st h")
  from clean_category_first_call[OF 1] obtain r1 where h1: "h1 = h @ r1"
    by auto
  show ?case
  proof (cases x)
    case (Inl e)
    with Cons.prems 1 h1 show ?thesis
      by auto
  next
    case (Inr st1)
    with Cons.prems 1 have "clean_loop p u m cs st1 h1 = (r, h')"
      by simp
    from Cons.IH[OF this] h1 show ?thesis
      by auto
  qed
qed

lemma CleanCategories_first_call:
  assumes "CleanCategories p u (c # cs) m h = (r, h')"
  shows "\<exists>rest. h' = h @ ThreadsList u c (pageSize m 0) [] # rest"
proof -
  obtain x h2 where l: "clean_loop p u m (c # cs) initial_state h = (x, h2)"
    by (cases "clean_loop p u m (c # cs) initial_state h")
  with assms have h2: "h2 = h'"
    by (auto simp: CleanCategories_def split: sum.splits)
  obtain y h1 where 1: "clean_category p u m c initial_state h = (y, h1)"
    by (cases "clean_category p u m c initial_state h")
  from clean_category_first_call[OF 1] obtain r1 where
    h1: "h1 = h @ ThreadsList u c (pageSize m 0) [] # r1"
    by blast
  show ?thesis
  proof (cases y)
    case (Inl e)
    with l 1 h1 h2 show ?thesis
      by auto
  next
    case (Inr st1)
    with l 1 have "clean_loop p u m cs st1 h1 = (x, h2)"
      by simp
    from clean_loop_grows[OF this] h1 h2 show ?thesis
      by auto
  qed
qed

lemma snd_respond: "snd (respond r) = snd r"
  by (auto simp: respond_def split: prod.splits sum.splits)

text \<open>
  C8. For a request with \<open>MaxPerCategory = 0\<close> the handler answers with what
  \<open>CleanCategories\<close> returns under the cap 1000000; if the request passed the binding
  constraints, the first remote call asks for a full page of 500 threads of the first
  category.
\<close>

theorem C8_zero_cap_substituted:
  assumes "MaxPerCategory req = 0"
  shows "Clean p (Inr req) h = respond (CleanCategories p ''me'' (Categories req) 1000000 h)
         \<and> (binding_ok req \<longrightarrow>
              (\<exists>rest. snd (Clean p (Inr req) h)
                 = h @ ThreadsList ''me'' (hd (Categories req)) 500 [] # rest))"
proof
  show c: "Clean p (Inr req) h = respond (CleanCategories p ''me'' (Categories req) 1000000 h)"
    using assms by (simp add: Clean_def)
  show "binding_ok req \<longrightarrow>
              (\<exists>rest. snd (Clean p (Inr req) h)
                 = h @ ThreadsList ''me'' (hd (Categories req)) 500 [] # rest)"
  proof
    assume "binding_ok req"
    then obtain x xs where cs: "Categories req = x # xs"
      by (cases "Categories req") (auto simp: binding_ok_def)
    have "\<exists>rest. snd (CleanCategories p ''me'' (x # xs) 1000000 h)
            = h @ ThreadsList ''me'' x (pageSize 1000000 0) [] # rest"
      using CleanCategories_first_call[OF surjective_pairing] .
    then show "\<exists>rest. snd (Clean p (Inr req) h)
                 = h @ ThreadsList ''me'' (hd (Categories req)) 500 [] # rest"
      using c cs by (simp add: snd_respond pageSize_min)
  qed
qed

text \<open>A zero cap for the social category against the provider that always lists \<open>t1\<close>.\<close>

theorem C8_zero_cap_substituted_witness:
  "MaxPerCategory \<lparr>MaxPerCategory = 0, Categories = [''CATEGORY_SOCIAL'']\<rparr> = 0
   \<and> binding_ok \<lparr>MaxPerCategory = 0, Categories = [''CATEGORY_SOCIAL'']\<rparr>
   \<and> Clean steady_provider (Inr \<lparr>MaxPerCategory = 0, Categories = [''CATEGORY_SOCIAL'']\<rparr>) []
     = (\<lparr>status = 200,
         payload = Cleaned \<lparr>json_deleted = Map.empty(''CATEGORY_SOCIAL'' \<mapsto> 1),
                            json_total_deleted = 1, json_completed = True,
                            json_completion_reason = ''all categories processed''\<rparr>\<rparr>,
        [ThreadsList ''me'' ''CATEGORY_SOCIAL'' 500 [],
         ThreadsModify ''me'' ''t1'' [''TRASH''] [''INBOX''],
         ThreadsList ''me'' ''CATEGORY_SOCIAL'' 1 []])"
proof -
  have z: "MaxPerCategory \<lparr>MaxPerCategory = 0, Categories = [''CATEGORY_SOCIAL'']\<rparr> = 0"
    by simp
  have b: "binding_ok \<lparr>MaxPerCategory = 0, Categories = [''CATEGORY_SOCIAL'']\<rparr>"
    by (simp add: binding_ok_def)
  have r: "respond (CleanCategories steady_provider ''me'' [''CATEGORY_SOCIAL''] 1000000 [])
     = (\<lparr>status = 200,
         payload = Cleaned \<lparr>json_deleted = Map.empty(''CATEGORY_SOCIAL'' \<mapsto> 1),
                            json_total_deleted = 1, json_completed = True,
                            json_completion_reason = ''all categories processed''\<rparr>\<rparr>,
        [ThreadsList ''me'' ''CATEGORY_SOCIAL'' 500 [],
         ThreadsModify ''me'' ''t1'' [''TRASH''] [''INBOX''],
         ThreadsList ''me'' ''CATEGORY_SOCIAL'' 1 []])"
    by (simp add: respond_def run_simps steady_provider_def)
  from C8_zero_cap_substituted[OF z, of steady_provider "[]"] b r show ?thesis
    by simp
qed

lemma IsAuthError_iff:
  "IsAuthError (Some e) \<longleftrightarrow>
     (\<exists>needle\<in>set [''ACCESS_TOKEN_SCOPE_INSUFFICIENT'', ''insufficientPermissions'',
                    ''Error 401'', ''Error 403''].
        \<exists>pre post. error_text e = pre @ needle @ post)"
  unfolding IsAuthError_def strings_Contains_def sublist_def
  by (simp only: option.case list.set ball_simps bex_simps) blast

text \<open>
  C9. An error returned by \<open>CleanCategories\<close> is an authentication error if and only if
  its text contains one of the four substrings; the handler answers it with status 401
  and the prompt to re-authenticate, and any other error with status 500 and the text of
  the error.
\<close>

theorem C9_auth_errors_distinct:
  assumes "CleanCategories p ''me'' (Categories req)
             (if MaxPerCategory req = 0 then 1000000 else MaxPerCategory req) h = (Inl e, h')"
  shows "(IsAuthError (Some e) \<longleftrightarrow>
            (\<exists>needle\<in>set [''ACCESS_TOKEN_SCOPE_INSUFFICIENT'', ''insufficientPermissions'',
                           ''Error 401'', ''Error 403''].
               \<exists>pre post. error_text e = pre @ needle @ post))
         \<and> Clean p (Inr req) h
           = (if IsAuthError (Some e)
              then (\<lparr>status = 401,
                     payload = H [(''error'', ''Authentication failed or insufficient permissions''),
                                  (''suggestion'',
                                   ''Please re-authenticate with the required Gmail scopes''),
                                  (''details'', error_text e)]\<rparr>, h')
              else (\<lparr>status = 500, payload = H [(''error'', error_text e)]\<rparr>, h'))"
proof
  show "IsAuthError (Some e) \<longleftrightarrow>
            (\<exists>needle\<in>set [''ACCESS_TOKEN_SCOPE_INSUFFICIENT'', ''insufficientPermissions'',
                           ''Error 401'', ''Error 403''].
               \<exists>pre post. error_text e = pre @ needle @ post)"
    by (rule IsAuthError_iff)
  show "Clean p (Inr req) h
           = (if IsAuthError (Some e)
              then (\<lparr>status = 401,
                     payload = H [(''error'', ''Authentication failed or insufficient permissions''),
                                  (''suggestion'',
                                   ''Please re-authenticate with the required Gmail scopes''),
                                  (''details'', error_text e)]\<rparr>, h')
              else (\<lparr>status = 500, payload = H [(''error'', error_text e)]\<rparr>, h'))"
    using assms by (cases "MaxPerCategory req = 0") (simp_all add: Clean_def respond_def Let_def)
qed

lemma contains_simps:
  "strings_Contains s [] = True"
  "strings_Contains [] (x # xs) = False"
  "strings_Contains (y # ys) (x # xs)
     = (prefix (x # xs) (y # ys) \<or> strings_Contains ys (x # xs))"
  by (simp_all add: strings_Contains_def sublist_Cons_right)

lemma forbidden_run:
  "CleanCategories forbidden_provider ''me''
     (Categories \<lparr>MaxPerCategory = 5, Categories = [''CATEGORY_FORUMS'']\<rparr>)
     (if MaxPerCategory \<lparr>MaxPerCategory = 5, Categories = [''CATEGORY_FORUMS'']\<rparr> = 0
      then 1000000
      else MaxPerCategory \<lparr>MaxPerCategory = 5, Categories = [''CATEGORY_FORUMS'']\<rparr>) []
   = (Inl (Error (''failed to list category threads for CATEGORY_FORUMS (page 1): ''
                  @ ''googleapi: Error 403: Request had insufficient authentication scopes.'')),
      [ThreadsList ''me'' ''CATEGORY_FORUMS'' 5 []])"
  by (simp add: run_simps forbidden_provider_def category_page_error_def itoa.simps)

lemma faulty_run:
  "CleanCategories faulty_provider ''me''
     (Categories \<lparr>MaxPerCategory = 10, Categories = [''CATEGORY_SOCIAL'']\<rparr>)
     (if MaxPerCategory \<lparr>MaxPerCategory = 10, Categories = [''CATEGORY_SOCIAL'']\<rparr> = 0
      then 1000000
      else MaxPerCategory \<lparr>MaxPerCategory = 10, Categories = [''CATEGORY_SOCIAL'']\<rparr>) []
   = (Inl (Error ''failed to trash thread s2: Error 500: backend error''),
      [ThreadsList ''me'' ''CATEGORY_SOCIAL'' 10 [],
       ThreadsModify ''me'' ''s1'' [''TRASH''] [''INBOX''],
       ThreadsModify ''me'' ''s2'' [''TRASH''] [''INBOX'']])"
  by (simp add: run_simps faulty_provider_def)

text \<open>
  A listing refused with "Error 403" is answered with 401; a failed modify with
  "Error 500" is answered with 500.
\<close>

theorem C9_auth_errors_distinct_witness:
  "IsAuthError (Some (Error (''failed to list category threads for CATEGORY_FORUMS (page 1): ''
                  @ ''googleapi: Error 403: Request had insufficient authentication scopes.'')))
   \<and> Clean forbidden_provider
        (Inr \<lparr>MaxPerCategory = 5, Categories = [''CATEGORY_FORUMS'']\<rparr>) []
     = (\<lparr>status = 401,
         payload = H [(''error'', ''Authentication failed or insufficient permissions''),
                      (''suggestion'', ''Please re-authenticate with the required Gmail scopes''),
                      (''details'',
                       ''failed to list category threads for CATEGORY_FORUMS (page 1): ''
                       @ ''googleapi: Error 403: Request had insufficient authentication scopes.'')]\<rparr>,
        [ThreadsList ''me'' ''CATEGORY_FORUMS'' 5 []])
   \<and> \<not> IsAuthError (Some (Error ''failed to trash thread s2: Error 500: backend error''))
   \<and> Clean faulty_provider
        (Inr \<lparr>MaxPerCategory = 10, Categories = [''CATEGORY_SOCIAL'']\<rparr>) []
     = (\<lparr>status = 500,
         payload = H [(''error'', ''failed to trash thread s2: Error 500: backend error'')]\<rparr>,
        [ThreadsList ''me'' ''CATEGORY_SOCIAL'' 10 [],
         ThreadsModify ''me'' ''s1'' [''TRASH''] [''INBOX''],
         ThreadsModify ''me'' ''s2'' [''TRASH''] [''INBOX'']])"
proof -
  have a: "IsAuthError (Some (Error
             (''failed to list category threads for CATEGORY_FORUMS (page 1): ''
              @ ''googleapi: Error 403: Request had insufficient authentication scopes.'')))"
    by (simp add: IsAuthError_def contains_simps)
  have b: "\<not> IsAuthError (Some (Error ''failed to trash thread s2: Error 500: backend error''))"
    by (simp add: IsAuthError_def contains_simps)
  from C9_auth_errors_distinct[OF forbidden_run] C9_auth_errors_distinct[OF faulty_run] a b
  show ?thesis
    by simp
qed

end
